theory Spec2Isabelle
  imports Complex_Main "HOL-Library.Word"
begin

section \<open>Dye injector: the serial command protocol of dye\_injector.ino\<close>

text \<open>
  The sketch runs on an AVR board (it calls avr-libc's \<open>dtostre\<close>), so \<open>int\<close> and
  \<open>unsigned int\<close> are 16 bits wide and \<open>long\<close> is 32 bits wide. They are modelled as
  \<open>16 word\<close> and \<open>32 word\<close>; \<open>sint\<close> reads a signed value, \<open>unat\<close> an unsigned one.

  An Arduino \<open>String\<close> is modelled as the list of its \<open>length()\<close> characters; the
  byte behind the last one is the terminator the \<open>String\<close> keeps there. The library
  functions the sketch calls on it (\<open>indexOf\<close>, \<open>substring\<close>, \<open>startsWith\<close>, \<open>==\<close>,
  \<open>toInt\<close>, \<open>charAt\<close>, \<open>setCharAt\<close>) belong to the Arduino core, not to the sketch;
  each is written out below as the core implements it. Several of them work on the
  character buffer as a C string (\<open>strchr\<close>, \<open>strcmp\<close>, \<open>strncmp\<close>, assignment from
  \<open>char*\<close>) and so see only the characters before the first NUL byte; a NUL byte can
  be in the buffer because \<open>serialEvent\<close> appends whatever byte arrives.
\<close>

subsection \<open>Machine integers\<close>

type_synonym c_int = "16 word"
type_synonym c_uint = "16 word"
type_synonym c_long = "32 word"

text \<open>
  A 16-bit \<open>int\<close> passed where the callee takes an \<open>unsigned int\<close>: a negative value
  wraps around by \<open>2^16\<close>, any other is kept.
\<close>

definition as_unsigned :: "int \<Rightarrow> nat" where
  "as_unsigned i = (if i < 0 then nat (i + 65536) else nat i)"

text \<open>The casts \<open>(int)\<close> and \<open>(unsigned int)\<close> of a \<open>long\<close> keep the low 16 bits.\<close>

definition long_to_int :: "c_long \<Rightarrow> c_int" where
  "long_to_int l = ucast l"

definition long_to_uint :: "c_long \<Rightarrow> c_uint" where
  "long_to_uint l = ucast l"

text \<open>Arduino's macro \<open>abs(x)\<close> is \<open>((x)>0?(x):-(x))\<close>, here on a 16-bit \<open>int\<close>.\<close>

definition abs_int :: "c_int \<Rightarrow> c_int" where
  "abs_int x = (if 0 < sint x then x else - x)"

subsection \<open>The Arduino String operations used by the sketch\<close>

abbreviation newline :: char where
  "newline \<equiv> CHR 0x0A"

abbreviation NUL :: char where
  "NUL \<equiv> CHR 0x00"

text \<open>The C string held in a character buffer: the characters before the first NUL.\<close>

definition c_str :: "string \<Rightarrow> string" where
  "c_str s = takeWhile (\<lambda>c. c \<noteq> NUL) s"

text \<open>The position of the first occurrence of a character in a list, or \<open>-1\<close>.\<close>

fun find_char :: "char \<Rightarrow> string \<Rightarrow> int" where
  "find_char c [] = - 1"
| "find_char c (x # xs) =
     (if x = c then 0
      else (let r = find_char c xs in if r = - 1 then - 1 else r + 1))"

text \<open>
  \<open>String::indexOf(char)\<close>: \<open>-1\<close> for the empty string, else \<open>strchr\<close> on the buffer,
  which searches the C string and its terminator.
\<close>

definition indexOf :: "char \<Rightarrow> string \<Rightarrow> int" where
  "indexOf ch s = (if 0 \<ge> length s then - 1 else find_char ch (c_str s @ [NUL]))"

text \<open>
  \<open>String::substring(left, right)\<close> on unsigned arguments: the bounds are swapped when
  out of order, a start at or past the end gives the empty string, and the end is clipped
  to the length. The result is assigned from the buffer as a C string that starts at
  \<open>left\<close> and has a terminator written at \<open>right\<close>, so it ends at the first NUL byte
  if there is one before.
\<close>

definition substring :: "nat \<Rightarrow> nat \<Rightarrow> string \<Rightarrow> string" where
  "substring left right s =
     (let l = (if left > right then right else left);
          r = (if left > right then left else right)
      in if l \<ge> length s then []
         else c_str (take ((if r > length s then length s else r) - l) (drop l s)))"

text \<open>\<open>String::substring(left)\<close> is \<open>substring(left, length())\<close>.\<close>

definition substring_from :: "nat \<Rightarrow> string \<Rightarrow> string" where
  "substring_from left s = substring left (length s) s"

text \<open>
  \<open>String::startsWith(p)\<close>: false when \<open>p\<close> is longer, else \<open>strncmp\<close> over the
  length of \<open>p\<close>, which compares the two C strings up to that length.
\<close>

definition startsWith :: "string \<Rightarrow> string \<Rightarrow> bool" where
  "startsWith p s =
     (if length s < length p then False
      else c_str (take (length p) s) = c_str (take (length p) p))"

text \<open>\<open>String == literal\<close> is \<open>strcmp\<close> on the buffer: the C strings are compared.\<close>

definition equals :: "string \<Rightarrow> string \<Rightarrow> bool" where
  "equals s lit = (c_str s = c_str lit)"

text \<open>
  \<open>String::toInt()\<close> is avr-libc's \<open>atol\<close> on the character buffer: leading white space
  is skipped, one optional sign is read, then decimal digits are accumulated until the
  first character that is not a digit. The accumulator is a 32-bit \<open>long\<close>. A NUL byte
  is neither white space nor a digit, so reading stops there at the latest.
\<close>

definition isspace :: "char \<Rightarrow> bool" where
  "isspace c = (c = CHR '' '' \<or> (9 \<le> (of_char c :: nat) \<and> (of_char c :: nat) \<le> 13))"

definition isdigit :: "char \<Rightarrow> bool" where
  "isdigit c = (48 \<le> (of_char c :: nat) \<and> (of_char c :: nat) \<le> 57)"

fun atol_digits :: "c_long \<Rightarrow> string \<Rightarrow> c_long" where
  "atol_digits acc [] = acc"
| "atol_digits acc (c # cs) =
     (if isdigit c then atol_digits (acc * 10 + of_nat (of_char c - 48)) cs else acc)"

definition atol :: "string \<Rightarrow> c_long" where
  "atol s =
     (case dropWhile isspace s of
        [] \<Rightarrow> 0
      | c # cs \<Rightarrow>
          if c = CHR ''-'' then - atol_digits 0 cs
          else if c = CHR ''+'' then atol_digits 0 cs
          else atol_digits 0 (c # cs))"

definition toInt :: "string \<Rightarrow> c_long" where
  "toInt s = atol s"

text \<open>Decimal text of an unsigned number, as \<open>String(unsigned int)\<close> prints it.\<close>

fun dec :: "nat \<Rightarrow> string" where
  "dec n = (if n < 10 then [char_of (48 + n)]
            else dec (n div 10) @ [char_of (48 + n mod 10)])"

declare dec.simps [simp del]

subsection \<open>Floating point, the motor shield and the serial port\<close>

text \<open>
  \<open>dyeInjected\<close> and \<open>volumePerRevolution\<close> are AVR \<open>float\<close>s. The float type and its
  operations are parameters of the model: the conversion of an integer to \<open>float\<close>,
  addition, multiplication, division, the compile-time constant
  \<open>(60.0/4.2188)/40.0\<close> and avr-libc's \<open>dtostre(x, buf, 8, 0x02)\<close>. Every theorem below
  holds for all of them, so in particular for IEEE single precision.
\<close>

record 'f float_ops =
  f_of_int :: "int \<Rightarrow> 'f"
  f_add :: "'f \<Rightarrow> 'f \<Rightarrow> 'f"
  f_mul :: "'f \<Rightarrow> 'f \<Rightarrow> 'f"
  f_div :: "'f \<Rightarrow> 'f \<Rightarrow> 'f"
  volumePerRevolution :: "'f"
  dtostre :: "'f \<Rightarrow> string"

definition floatToString :: "'f float_ops \<Rightarrow> 'f \<Rightarrow> string" where
  "floatToString F x = dtostre F x"

definition freqdriveMotorControlVersion :: string where
  "freqdriveMotorControlVersion = ''0.1''"

definition commandFromComputerMaxLength :: nat where
  "commandFromComputerMaxLength = 256"

definition stepsPerRevolution :: c_uint where
  "stepsPerRevolution = 200"

definition MAX_INJECTION_STAGES :: nat where
  "MAX_INJECTION_STAGES = 4"

datatype direction = FORWARD | BACKWARD

datatype step_style = SINGLE | DOUBLE | INTERLEAVE | MICROSTEP

text \<open>The calls made on the Adafruit stepper object, in the order they are made.\<close>

datatype motor_call =
    SetSpeed c_uint
  | Step c_uint direction step_style
  | Release

text \<open>
  The global variables of the sketch, with the strings handed to \<open>Serial.print\<close> and
  the calls made on the stepper recorded in order. The two stage arrays have
  \<open>MAX_INJECTION_STAGES\<close> slots; they are indexed only below that bound.
\<close>

record 'f sketch =
  commandFromComputerString :: string
  commandFromComputerComplete :: bool
  dyeInjected :: "'f"
  injectionStageSpeeds :: "nat \<Rightarrow> c_uint"
  injectionStageSteps :: "nat \<Rightarrow> c_int"
  serial_printed :: "string list"
  stepper_calls :: "motor_call list"

definition Serial_print :: "string \<Rightarrow> 'f sketch \<Rightarrow> 'f sketch" where
  "Serial_print txt st = st\<lparr>serial_printed := serial_printed st @ [txt]\<rparr>"

subsection \<open>processInjectCommand\<close>

text \<open>
  The body of the \<open>for\<close> loop over \<open>numberStages\<close>, with the remaining text \<open>s\<close> and
  the two global arrays passed along. The result is the returned \<open>int\<close> and the arrays
  as the function leaves them.
\<close>

function read_stages ::
  "nat \<Rightarrow> string \<Rightarrow> (nat \<Rightarrow> c_uint) \<Rightarrow> (nat \<Rightarrow> c_int)
     \<Rightarrow> int \<times> (nat \<Rightarrow> c_uint) \<times> (nat \<Rightarrow> c_int)" where
  "read_stages numberStages s speeds steps =
     (if numberStages < MAX_INJECTION_STAGES then
        (let index = indexOf CHR '' '' s in
         if index = - 1 then
           ((if length s = 0 then int numberStages else - 1), speeds, steps)
         else
           (let steps1 = steps(numberStages :=
                           long_to_int (toInt (substring 0 (as_unsigned index) s)));
                s1 = substring_from (as_unsigned (index + 1)) s;
                index1 = indexOf CHR '','' s1
            in if index1 = - 1 then
                 (int numberStages + 1,
                  speeds(numberStages := long_to_uint (toInt s1)), steps1)
               else
                 read_stages (numberStages + 1)
                   (substring_from (as_unsigned (index1 + 1)) s1)
                   (speeds(numberStages :=
                      long_to_uint (toInt (substring 0 (as_unsigned index1) s1))))
                   steps1))
      else (- 1, speeds, steps))"
  by pat_completeness auto
termination
  by (relation "measure (\<lambda>(n, s, sp, st). MAX_INJECTION_STAGES - n)") auto

declare read_stages.simps [simp del]

definition processInjectCommand ::
  "string \<Rightarrow> (nat \<Rightarrow> c_uint) \<Rightarrow> (nat \<Rightarrow> c_int)
     \<Rightarrow> int \<times> (nat \<Rightarrow> c_uint) \<times> (nat \<Rightarrow> c_int)" where
  "processInjectCommand s speeds steps =
     (if \<not> startsWith ''Inject: '' s then (- 1, speeds, steps)
      else read_stages 0 (substring_from 8 s) speeds steps)"

subsection \<open>loop\<close>

text \<open>One pass of the stage loop of \<open>loop\<close> (lines 213 to 220), for stage \<open>i\<close>.\<close>

definition run_stage :: "'f float_ops \<Rightarrow> nat \<Rightarrow> 'f sketch \<Rightarrow> 'f sketch" where
  "run_stage F i st =
     st\<lparr>stepper_calls := stepper_calls st @
          [SetSpeed (injectionStageSpeeds st i),
           Step (abs_int (injectionStageSteps st i))
                (if 0 < sint (injectionStageSteps st i) then FORWARD else BACKWARD)
                DOUBLE,
           Release],
        dyeInjected :=
          f_add F (dyeInjected st)
            (f_div F
               (f_mul F (f_of_int F (sint (injectionStageSteps st i)))
                        (volumePerRevolution F))
               (f_of_int F (uint stepsPerRevolution)))\<rparr>"

function run_stages :: "'f float_ops \<Rightarrow> nat \<Rightarrow> int \<Rightarrow> 'f sketch \<Rightarrow> 'f sketch" where
  "run_stages F i numberStages st =
     (if int i < numberStages then run_stages F (i + 1) numberStages (run_stage F i st)
      else st)"
  by pat_completeness auto
termination
  by (relation "measure (\<lambda>(F, i, n, st). nat (n - int i))") auto

declare run_stages.simps [simp del]

text \<open>
  The chain of comparisons of \<open>loop\<close> (lines 174 to 225) on the trimmed command text
  \<open>cmd\<close>, which is the value of \<open>commandFromComputerString\<close> at that point.
\<close>

definition dispatch :: "'f float_ops \<Rightarrow> string \<Rightarrow> 'f sketch \<Rightarrow> 'f sketch" where
  "dispatch F cmd st =
     (if equals cmd ''Status?'' then Serial_print (''OK'' @ [newline]) st
      else if equals cmd ''Program?'' then Serial_print (''Dye Injector'' @ [newline]) st
      else if equals cmd ''Version?'' then
        Serial_print (freqdriveMotorControlVersion @ [newline]) st
      else if equals cmd ''DyeInjected?'' then
        Serial_print (floatToString F (dyeInjected st) @ [newline]) st
      else if equals cmd ''ResetDyeInjected'' then
        Serial_print (''ACK'' @ [newline]) (st\<lparr>dyeInjected := f_of_int F 0\<rparr>)
      else if equals cmd ''StepsPerRevolution?'' then
        Serial_print (dec (unat stepsPerRevolution) @ [newline]) st
      else if equals cmd ''VolumePerRevolution?'' then
        Serial_print (floatToString F (volumePerRevolution F) @ [newline]) st
      else if startsWith ''Inject: '' cmd then
        (case processInjectCommand cmd (injectionStageSpeeds st) (injectionStageSteps st) of
           (numberStages, speeds, steps) \<Rightarrow>
             (let st1 = st\<lparr>injectionStageSpeeds := speeds, injectionStageSteps := steps\<rparr>
              in if numberStages = - 1 then Serial_print (''Invalid'' @ [newline]) st1
                 else run_stages F 0 numberStages
                        (Serial_print (''Executing'' @ [newline]) st1)))
      else Serial_print (''Invalid'' @ [newline]) st)"

text \<open>
  Line 168: \<open>s.substring(0, s.indexOf('\n'))\<close> on the buffer \<open>s\<close>. The \<open>int\<close> that
  \<open>indexOf\<close> returns is passed as an \<open>unsigned int\<close>.
\<close>

definition trim_command :: "string \<Rightarrow> string" where
  "trim_command s = substring 0 (as_unsigned (indexOf newline s)) s"

definition loop :: "'f float_ops \<Rightarrow> 'f sketch \<Rightarrow> 'f sketch" where
  "loop F st =
     (if commandFromComputerComplete st then
        (let cmd = trim_command (commandFromComputerString st);
             st1 = dispatch F cmd (st\<lparr>commandFromComputerString := cmd\<rparr>)
         in st1\<lparr>commandFromComputerString := [],
                commandFromComputerComplete := False\<rparr>)
      else st)"

subsection \<open>serialEvent\<close>

text \<open>
  The shifting loop of lines 266 to 269: every character moves down one slot. The
  bound \<open>length() - 1\<close> is unsigned; the loop is entered only with a full buffer, so it
  does not wrap.
\<close>

function shift_down :: "nat \<Rightarrow> string \<Rightarrow> string" where
  "shift_down i s =
     (if i < length s - 1 then shift_down (i + 1) (s[i := s ! (i + 1)]) else s)"
  by pat_completeness auto
termination
  by (relation "measure (\<lambda>(i, s). length s - 1 - i)") auto

declare shift_down.simps [simp del]

text \<open>The body of the \<open>while\<close> loop for one byte read from the port.\<close>

definition receive_char :: "char \<Rightarrow> 'f sketch \<Rightarrow> 'f sketch" where
  "receive_char currentChar st =
     (let s = commandFromComputerString st;
          s1 = (if length s < commandFromComputerMaxLength then s @ [currentChar]
                else (shift_down 0 s)[length s - 1 := currentChar])
      in st\<lparr>commandFromComputerString := s1,
            commandFromComputerComplete :=
              (if currentChar = newline then True else commandFromComputerComplete st)\<rparr>)"

text \<open>\<open>serialEvent\<close> on the bytes that are available, oldest first.\<close>

fun serialEvent :: "string \<Rightarrow> 'f sketch \<Rightarrow> 'f sketch" where
  "serialEvent [] st = st"
| "serialEvent (c # cs) st = serialEvent cs (receive_char c st)"

subsection \<open>Command texts\<close>

text \<open>
  The texts the theorems below are about. A signed decimal numeral, and the stage list of
  an \<open>Inject\<close> command as the sketch's header describes it (\<open>A B,C D,E F\<close>): each
  stage is a steps token, one space and a speed token, and stages are separated by commas.
\<close>

definition show_int :: "int \<Rightarrow> string" where
  "show_int i = (if i < 0 then CHR ''-'' # dec (nat (- i)) else dec (nat i))"

fun stage_list_text :: "(string \<times> string) list \<Rightarrow> string" where
  "stage_list_text [] = []"
| "stage_list_text [(a, b)] = a @ '' '' @ b"
| "stage_list_text ((a, b) # x # xs) = a @ '' '' @ b @ '','' @ stage_list_text (x # xs)"

text \<open>
  The number a string of digits writes, and the value of the numeral at the start of a
  token: leading white space is passed over, one sign is read if there is one, and the
  digits that follow up to the first other character are the numeral. The value is 0 when
  no digit stands there. These are numbers, with no bound.
\<close>

definition digits_value :: "string \<Rightarrow> nat" where
  "digits_value ds = foldl (\<lambda>a c. a * 10 + (of_char c - 48)) 0 ds"

definition leading_value :: "string \<Rightarrow> int" where
  "leading_value t =
     (case dropWhile isspace t of
        [] \<Rightarrow> 0
      | c # cs \<Rightarrow>
          if c = CHR ''-'' then - int (digits_value (takeWhile isdigit cs))
          else if c = CHR ''+'' then int (digits_value (takeWhile isdigit cs))
          else int (digits_value (takeWhile isdigit (c # cs))))"

text \<open>A numeral: one optional sign and then one or more digits, nothing else.\<close>

definition is_numeral :: "string \<Rightarrow> bool" where
  "is_numeral t =
     (case t of
        [] \<Rightarrow> False
      | c # cs \<Rightarrow>
          if c = CHR ''-'' \<or> c = CHR ''+'' then cs \<noteq> [] \<and> list_all isdigit cs
          else list_all isdigit (c # cs))"

text \<open>
  A token with no numeral at its start: after leading white space and one optional sign,
  the text ends or continues with a character that is not a digit.
\<close>

definition no_numeral :: "string \<Rightarrow> bool" where
  "no_numeral t =
     (case dropWhile isspace t of
        [] \<Rightarrow> True
      | c # cs \<Rightarrow>
          if c = CHR ''-'' \<or> c = CHR ''+'' then
            (case cs of [] \<Rightarrow> True | d # ds \<Rightarrow> \<not> isdigit d)
          else \<not> isdigit c)"

text \<open>
  The values the sketch stores for the tokens of a stage: the steps token goes through
  \<open>(int)\<dots>.toInt()\<close> (line 331) and is read as a signed number, the speed token
  through \<open>(unsigned int)\<dots>.toInt()\<close> (lines 347 and 357).
\<close>

definition stage_steps :: "string \<Rightarrow> int" where
  "stage_steps a = sint (long_to_int (toInt a))"

definition stage_speed :: "string \<Rightarrow> c_uint" where
  "stage_speed b = long_to_uint (toInt b)"

text \<open>
  The state after power-on, from the initialisers of the globals (lines 105 to 127;
  the stage arrays are zero-initialised).
\<close>

definition power_on :: "'f float_ops \<Rightarrow> 'f sketch" where
  "power_on F =
     \<lparr>commandFromComputerString = [],
      commandFromComputerComplete = False,
      dyeInjected = f_of_int F 0,
      injectionStageSpeeds = (\<lambda>_. 0),
      injectionStageSteps = (\<lambda>_. 0),
      serial_printed = [],
      stepper_calls = []\<rparr>"

text \<open>
  One instance of the float parameters: exact arithmetic on the reals, with the
  calibration constant \<open>v\<close> and the formatter \<open>fmt\<close> left open.
\<close>

definition exact_ops :: "real \<Rightarrow> (real \<Rightarrow> string) \<Rightarrow> real float_ops" where
  "exact_ops v fmt =
     \<lparr>f_of_int = of_int, f_add = (+), f_mul = (*), f_div = (/),
      volumePerRevolution = v, dtostre = fmt\<rparr>"

text \<open>
  A concrete instance for evaluating examples: exact arithmetic with the calibration
  constant of the sketch. The examples format no number, and its formatter prints nothing.
\<close>

definition bench_ops :: "real float_ops" where
  "bench_ops = exact_ops (60 / 4.2188 / 40) (\<lambda>x. [])"

section \<open>Properties\<close>

subsection \<open>The string operations\<close>

lemma as_unsigned_int: "as_unsigned (int n) = n"
  by (simp add: as_unsigned_def)

lemma as_unsigned_int_Suc: "as_unsigned (int n + 1) = Suc n"
  by (simp add: as_unsigned_def nat_add_distrib)

lemma as_unsigned_minus_one: "as_unsigned (- 1) = 65535"
  by (simp add: as_unsigned_def)

lemma c_str_text: "NUL \<notin> set s \<Longrightarrow> c_str s = s"
  by (induction s) (auto simp: c_str_def)

lemma c_str_no_nul: "NUL \<notin> set (c_str s)"
  by (auto simp: c_str_def dest: set_takeWhileD)

lemma c_str_idem: "c_str (c_str s) = c_str s"
  by (rule c_str_text) (rule c_str_no_nul)

lemma c_str_subset: "x \<in> set (c_str s) \<Longrightarrow> x \<in> set s"
  by (auto simp: c_str_def dest: set_takeWhileD)

lemma c_str_append_text: "NUL \<notin> set a \<Longrightarrow> c_str (a @ r) = a @ c_str r"
  by (induction a) (auto simp: c_str_def)

lemma c_str_append_cut: "NUL \<in> set a \<Longrightarrow> c_str (a @ r) = c_str a"
  by (induction a) (auto simp: c_str_def)

lemma find_char_absent: "c \<notin> set s \<Longrightarrow> find_char c s = - 1"
  by (induction s) auto

lemma find_char_range: "- 1 \<le> find_char c s \<and> find_char c s < int (length s)"
  by (induction s) (auto simp: Let_def)

lemma find_char_first: "c \<notin> set a \<Longrightarrow> find_char c (a @ c # r) = int (length a)"
  by (induction a) (auto simp: Let_def)

lemma find_char_terminator:
  "c \<noteq> NUL \<Longrightarrow> c \<notin> set s \<Longrightarrow> find_char c (s @ [NUL]) = - 1"
  by (rule find_char_absent) simp

lemma indexOf_absent: "c \<noteq> NUL \<Longrightarrow> c \<notin> set (c_str s) \<Longrightarrow> indexOf c s = - 1"
  by (simp add: indexOf_def find_char_terminator)

lemma indexOf_absent_text: "c \<noteq> NUL \<Longrightarrow> c \<notin> set s \<Longrightarrow> indexOf c s = - 1"
  using c_str_subset [of c s] by (auto intro: indexOf_absent)

lemma indexOf_first:
  assumes "c \<noteq> NUL" and "c \<notin> set a" and "NUL \<notin> set a"
  shows "indexOf c (a @ c # r) = int (length a)"
proof -
  have "c_str (c # r) = c # c_str r"
    using assms(1) by (simp add: c_str_def)
  then have "c_str (a @ c # r) @ [NUL] = a @ c # (c_str r @ [NUL])"
    using assms(3) by (simp add: c_str_append_text)
  then show ?thesis
    using assms(2) by (simp add: indexOf_def find_char_first)
qed

lemma substring_zero: "substring 0 n s = c_str (take n s)"
  by (auto simp: substring_def Let_def c_str_def)

lemma substring_from_drop: "substring_from n s = c_str (drop n s)"
  by (auto simp: substring_from_def substring_def Let_def c_str_def)

lemma startsWith_append: "NUL \<notin> set p \<Longrightarrow> startsWith p (p @ r)"
  by (simp add: startsWith_def)

lemma c_str_full_length: "length (c_str x) = length x \<Longrightarrow> c_str x = x"
proof -
  assume l: "length (c_str x) = length x"
  have "length (c_str x @ dropWhile (\<lambda>c. c \<noteq> NUL) x) = length x"
    by (simp only: c_str_def takeWhile_dropWhile_id)
  with l have "dropWhile (\<lambda>c. c \<noteq> NUL) x = []"
    by simp
  then have "NUL \<notin> set x"
    by auto
  then show ?thesis
    by (rule c_str_text)
qed

lemma startsWith_text:
  assumes "NUL \<notin> set p"
  shows "startsWith p s \<longleftrightarrow> length p \<le> length s \<and> take (length p) s = p"
proof (cases "length p \<le> length s")
  case False
  then show ?thesis
    by (simp add: startsWith_def)
next
  case True
  have "c_str (take (length p) s) = p \<longleftrightarrow> take (length p) s = p"
  proof
    assume e: "c_str (take (length p) s) = p"
    then have "length (c_str (take (length p) s)) = length (take (length p) s)"
      using True by simp
    then have "c_str (take (length p) s) = take (length p) s"
      by (rule c_str_full_length)
    with e show "take (length p) s = p"
      by simp
  next
    assume "take (length p) s = p"
    then show "c_str (take (length p) s) = p"
      using assms by (simp add: c_str_text)
  qed
  then show ?thesis
    using True assms by (simp add: startsWith_def c_str_text)
qed

lemma equals_text: "NUL \<notin> set lit \<Longrightarrow> equals s lit \<longleftrightarrow> c_str s = lit"
  by (simp add: equals_def c_str_text)

subsection \<open>Numerals read by \<open>toInt\<close>\<close>

lemma of_char_digit: "d < 10 \<Longrightarrow> (of_char (char_of (48 + d :: nat)) :: nat) = 48 + d"
  by simp

lemma isdigit_char_of: "d < 10 \<Longrightarrow> isdigit (char_of (48 + d :: nat))"
  by (simp add: isdigit_def)

lemma atol_digits_single:
  "d < 10 \<Longrightarrow> atol_digits acc [char_of (48 + d :: nat)] = acc * 10 + of_nat d"
  by (simp add: isdigit_def)

lemma dec_digits: "c \<in> set (dec n) \<Longrightarrow> isdigit c"
proof (induction n rule: dec.induct)
  case (1 n)
  show ?case
  proof (cases "n < 10")
    case True
    with "1.prems" show ?thesis
      by (simp add: dec.simps [of n] isdigit_char_of)
  next
    case False
    have "isdigit (char_of (48 + n mod 10))"
      by (rule isdigit_char_of) simp
    with False "1.prems" "1.IH" show ?thesis
      by (auto simp: dec.simps [of n])
  qed
qed

lemma dec_nonempty: "dec n \<noteq> []"
  by (subst dec.simps) simp

lemma atol_digits_append:
  "\<forall>c \<in> set ds. isdigit c \<Longrightarrow> atol_digits acc (ds @ r) = atol_digits (atol_digits acc ds) r"
  by (induction ds arbitrary: acc) auto

lemma atol_digits_dec: "atol_digits acc (dec n) = acc * 10 ^ length (dec n) + of_nat n"
proof (induction n arbitrary: acc rule: dec.induct)
  case (1 n)
  show ?case
  proof (cases "n < 10")
    case True
    then show ?thesis
      by (simp add: dec.simps [of n] atol_digits_single del: atol_digits.simps)
  next
    case False
    have d: "\<forall>c \<in> set (dec (n div 10)). isdigit c"
      using dec_digits by blast
    have unfold: "dec n = dec (n div 10) @ [char_of (48 + n mod 10)]"
      using False by (simp add: dec.simps [of n])
    have "atol_digits acc (dec n) =
            atol_digits (atol_digits acc (dec (n div 10))) [char_of (48 + n mod 10)]"
      by (simp only: unfold atol_digits_append [OF d])
    also have "\<dots> = (acc * 10 ^ length (dec (n div 10)) + of_nat (n div 10)) * 10
                      + of_nat (n mod 10)"
      by (simp only: "1.IH" [OF False] atol_digits_single [of "n mod 10"] pos_mod_bound)
    also have "\<dots> = acc * 10 ^ length (dec n)
                      + (of_nat (n div 10) * 10 + of_nat (n mod 10))"
      by (simp only: unfold) (simp add: algebra_simps)
    also have "(of_nat (n div 10) * 10 + of_nat (n mod 10) :: c_long)
                 = of_nat (n div 10 * 10 + n mod 10)"
      by (simp only: of_nat_add of_nat_mult of_nat_numeral)
    finally show ?thesis by simp
  qed
qed

lemma digit_not_space: "isdigit c \<Longrightarrow> \<not> isspace c"
  by (auto simp: isdigit_def isspace_def)

lemma digit_not_sign: "isdigit c \<Longrightarrow> c \<noteq> CHR ''-'' \<and> c \<noteq> CHR ''+''"
  by (auto simp: isdigit_def)


lemma atol_dec: "atol (dec n) = of_nat n"
proof -
  obtain c cs where d: "dec n = c # cs"
    using dec_nonempty [of n] by (cases "dec n") auto
  have c: "isdigit c"
    using dec_digits [of c n] d by simp
  have "atol (dec n) = atol_digits 0 (dec n)"
    using digit_not_space [OF c] digit_not_sign [OF c]
    by (simp add: atol_def d del: atol_digits.simps)
  then show ?thesis
    by (simp add: atol_digits_dec)
qed

lemma minus_not_space: "\<not> isspace CHR ''-''"
  by (simp add: isspace_def)

lemma atol_minus_dec: "atol (CHR ''-'' # dec n) = - of_nat n"
  by (simp add: atol_def minus_not_space atol_digits_dec)


lemma toInt_show_int: "toInt (show_int i) = word_of_int i"
proof (cases "i < 0")
  case True
  have "(of_nat (nat (- i)) :: c_long) = word_of_int (- i)"
    using True by simp
  then show ?thesis
    using True by (simp add: toInt_def show_int_def atol_minus_dec)
next
  case False
  have "(of_nat (nat i) :: c_long) = word_of_int i"
    using False by simp
  then show ?thesis
    using False by (simp add: toInt_def show_int_def atol_dec)
qed

lemma toInt_dec: "toInt (dec n) = of_nat n"
  by (simp add: toInt_def atol_dec)


lemma long_to_int_of_int: "long_to_int (word_of_int i) = word_of_int i"
  by (simp add: long_to_int_def unsigned_of_int word_of_int_eq_iff)

lemma long_to_uint_of_int: "long_to_uint (word_of_int i) = word_of_int i"
  by (simp add: long_to_uint_def unsigned_of_int word_of_int_eq_iff)

lemma long_to_uint_of_nat: "long_to_uint (of_nat n) = of_nat n"
  using long_to_uint_of_int [of "int n"] by simp

lemma space_not_in_show_int: "CHR '' '' \<notin> set (show_int i)"
  using dec_digits [of "CHR '' ''"] by (auto simp: show_int_def isdigit_def)

lemma comma_not_in_dec: "CHR '','' \<notin> set (dec n)"
  using dec_digits [of "CHR '',''"] by (auto simp: isdigit_def)

lemma comma_not_in_show_int: "CHR '','' \<notin> set (show_int i)"
  using dec_digits [of "CHR '',''"] by (auto simp: show_int_def isdigit_def)

lemma digit_chars:
  "char_of (48 :: nat) = CHR ''0''" "char_of (49 :: nat) = CHR ''1''"
  "char_of (50 :: nat) = CHR ''2''" "char_of (51 :: nat) = CHR ''3''"
  "char_of (52 :: nat) = CHR ''4''" "char_of (53 :: nat) = CHR ''5''"
  "char_of (54 :: nat) = CHR ''6''" "char_of (55 :: nat) = CHR ''7''"
  "char_of (56 :: nat) = CHR ''8''" "char_of (57 :: nat) = CHR ''9''"
  by code_simp+

lemma atol_digits_value:
  "atol_digits (of_nat a) s =
     of_nat (foldl (\<lambda>a c. a * 10 + (of_char c - 48)) a (takeWhile isdigit s))"
proof (induction s arbitrary: a)
  case Nil
  show ?case by simp
next
  case (Cons c cs)
  have "(of_nat a * 10 + of_nat (of_char c - 48) :: c_long) = of_nat (a * 10 + (of_char c - 48))"
    by simp
  then have "atol_digits (of_nat a * 10 + of_nat (of_char c - 48)) cs =
          of_nat (foldl (\<lambda>a c. a * 10 + (of_char c - 48)) (a * 10 + (of_char c - 48))
                    (takeWhile isdigit cs))"
    by (simp only: Cons.IH)
  then show ?case
    by simp
qed

lemma atol_digits_zero: "atol_digits 0 s = of_nat (digits_value (takeWhile isdigit s))"
  using atol_digits_value [of 0 s] by (simp add: digits_value_def)

lemma toInt_leading_value: "toInt t = word_of_int (leading_value t)"
proof (cases "dropWhile isspace t")
  case Nil
  show ?thesis
    unfolding toInt_def atol_def leading_value_def Nil by simp
next
  case (Cons c cs)
  show ?thesis
    unfolding toInt_def atol_def leading_value_def Cons
    by (simp add: atol_digits_zero del: atol_digits.simps)
qed

lemma digits_value_Nil: "digits_value [] = 0"
  by (simp add: digits_value_def)

lemma no_numeral_leading_value:
  assumes "no_numeral t"
  shows "leading_value t = 0"
proof (cases "dropWhile isspace t")
  case Nil
  show ?thesis
    unfolding leading_value_def Nil by simp
next
  case (Cons c cs)
  show ?thesis
  proof (cases "c = CHR ''-'' \<or> c = CHR ''+''")
    case True
    with assms Cons have "takeWhile isdigit cs = []"
      by (cases cs) (simp_all add: no_numeral_def)
    with True show ?thesis
      unfolding leading_value_def Cons by (auto simp: digits_value_Nil)
  next
    case False
    with assms Cons have "\<not> isdigit c"
      by (simp add: no_numeral_def)
    with False show ?thesis
      unfolding leading_value_def Cons by (simp add: digits_value_Nil)
  qed
qed

lemma takeWhile_digits: "list_all isdigit ds \<Longrightarrow> takeWhile isdigit ds = ds"
  by (induction ds) simp_all

lemma leading_value_minus:
  "list_all isdigit ds \<Longrightarrow> leading_value (CHR ''-'' # ds) = - int (digits_value ds)"
  by (simp add: leading_value_def minus_not_space takeWhile_digits)

lemma is_numeral_chars:
  assumes "is_numeral t" and "c \<in> set t"
  shows "isdigit c \<or> c = CHR ''-'' \<or> c = CHR ''+''"
proof (cases t)
  case Nil
  with assms(2) show ?thesis by simp
next
  case (Cons x xs)
  with assms show ?thesis
    by (auto simp: is_numeral_def list_all_iff split: if_splits)
qed

lemma is_numeral_text:
  assumes "is_numeral t"
  shows "CHR '' '' \<notin> set t \<and> CHR '','' \<notin> set t \<and> NUL \<notin> set t"
  using is_numeral_chars [OF assms, of "CHR '' ''"] is_numeral_chars [OF assms, of "CHR '',''"]
    is_numeral_chars [OF assms, of NUL]
  by (auto simp: isdigit_def)

lemma digits_value_append:
  "digits_value (xs @ ys) =
     foldl (\<lambda>a c. a * 10 + (of_char c - 48)) (digits_value xs) ys"
  by (simp add: digits_value_def)

lemma digits_value_dec: "digits_value (dec n) = n"
proof (induction n rule: dec.induct)
  case (1 n)
  show ?case
  proof (cases "n < 10")
    case True
    then show ?thesis
      by (simp add: dec.simps [of n] digits_value_def)
  next
    case False
    have "dec n = dec (n div 10) @ [char_of (48 + n mod 10)]"
      using False by (simp add: dec.simps [of n])
    then have "digits_value (dec n) = digits_value (dec (n div 10)) * 10 + n mod 10"
      by (simp add: digits_value_append)
    then show ?thesis
      using "1.IH" [OF False] by simp
  qed
qed

lemma digits_value_leading_zeros:
  "digits_value (replicate z CHR ''0'' @ ds) = digits_value ds"
proof -
  have "digits_value (replicate z CHR ''0'') = 0"
    by (induction z) (simp_all add: digits_value_def)
  then show ?thesis
    by (simp add: digits_value_append digits_value_def)
qed

subsection \<open>Reading and executing the stages\<close>

lemma run_stages_fold: "run_stages F i (int n) st = fold (run_stage F) [i..<n] st"
proof (induction "n - i" arbitrary: i st)
  case 0
  then show ?case
    by (subst run_stages.simps) simp
next
  case (Suc d)
  then have "i < n" and "d = n - (i + 1)"
    by simp_all
  then show ?case
    using Suc.hyps(1) [of "i + 1" "run_stage F i st"]
    by (subst run_stages.simps) (simp add: upt_conv_Cons)
qed

lemma fold_run_stage_frame:
  "injectionStageSpeeds (fold (run_stage F) ks st) = injectionStageSpeeds st \<and>
   injectionStageSteps (fold (run_stage F) ks st) = injectionStageSteps st \<and>
   serial_printed (fold (run_stage F) ks st) = serial_printed st \<and>
   commandFromComputerString (fold (run_stage F) ks st) = commandFromComputerString st \<and>
   commandFromComputerComplete (fold (run_stage F) ks st) = commandFromComputerComplete st"
  by (induction ks arbitrary: st) (simp_all add: run_stage_def)

lemma fold_run_stage_calls:
  "stepper_calls (fold (run_stage F) ks st) =
     stepper_calls st @
     concat (map (\<lambda>k. [SetSpeed (injectionStageSpeeds st k),
                        Step (abs_int (injectionStageSteps st k))
                             (if 0 < sint (injectionStageSteps st k) then FORWARD else BACKWARD)
                             DOUBLE,
                        Release]) ks)"
proof (induction ks arbitrary: st)
  case Nil
  show ?case by simp
next
  case (Cons k ks)
  show ?case
    by (simp add: Cons.IH) (simp add: run_stage_def)
qed

lemma fold_run_stage_dye:
  "dyeInjected (fold (run_stage F) ks st) =
     foldl (\<lambda>d k. f_add F d
              (f_div F (f_mul F (f_of_int F (sint (injectionStageSteps st k)))
                                (volumePerRevolution F))
                       (f_of_int F (uint stepsPerRevolution))))
       (dyeInjected st) ks"
proof (induction ks arbitrary: st)
  case Nil
  show ?case by simp
next
  case (Cons k ks)
  show ?case
    by (simp add: Cons.IH) (simp add: run_stage_def)
qed

lemma read_stages_full:
  "MAX_INJECTION_STAGES \<le> k \<Longrightarrow> read_stages k s sp st = (- 1, sp, st)"
  by (subst read_stages.simps) simp

lemma read_stages_no_space:
  "k < MAX_INJECTION_STAGES \<Longrightarrow> CHR '' '' \<notin> set s \<Longrightarrow>
   read_stages k s sp st = ((if s = [] then int k else - 1), sp, st)"
  by (subst read_stages.simps) (simp add: indexOf_absent_text)

lemma read_stages_last:
  assumes "k < MAX_INJECTION_STAGES" "CHR '' '' \<notin> set a" "CHR '','' \<notin> set b"
    and "NUL \<notin> set a" "NUL \<notin> set b"
  shows "read_stages k (a @ CHR '' '' # b) sp st =
           (int k + 1, sp(k := long_to_uint (toInt b)), st(k := long_to_int (toInt a)))"
proof -
  have i: "indexOf CHR '' '' (a @ CHR '' '' # b) = int (length a)"
    using assms(2,4) by (intro indexOf_first) simp_all
  have j: "indexOf CHR '','' b = - 1"
    using assms(3) by (intro indexOf_absent_text) simp_all
  show ?thesis
    by (subst read_stages.simps)
       (simp add: assms(1) i j substring_zero substring_from_drop Let_def
          as_unsigned_int as_unsigned_int_Suc c_str_text assms(4,5))
qed

lemma read_stages_next:
  assumes "k < MAX_INJECTION_STAGES" "CHR '' '' \<notin> set a" "CHR '','' \<notin> set b"
    and "NUL \<notin> set a" "NUL \<notin> set b" "NUL \<notin> set r"
  shows "read_stages k (a @ CHR '' '' # b @ CHR '','' # r) sp st =
           read_stages (k + 1) r
             (sp(k := long_to_uint (toInt b))) (st(k := long_to_int (toInt a)))"
proof -
  have i: "indexOf CHR '' '' (a @ CHR '' '' # b @ CHR '','' # r) = int (length a)"
    using assms(2,4) by (intro indexOf_first) simp_all
  have j: "indexOf CHR '','' (b @ CHR '','' # r) = int (length b)"
    using assms(3,5) by (intro indexOf_first) simp_all
  have t: "c_str (b @ CHR '','' # r) = b @ CHR '','' # r"
    using assms(5,6) by (intro c_str_text) simp
  show ?thesis
    by (subst read_stages.simps)
       (simp add: assms(1) i j t substring_zero substring_from_drop Let_def
          as_unsigned_int as_unsigned_int_Suc c_str_text assms(4,5,6))
qed

lemma stage_list_text_no_nul:
  "\<forall>(a, b) \<in> set sts. NUL \<notin> set a \<and> NUL \<notin> set b \<Longrightarrow> NUL \<notin> set (stage_list_text sts)"
  by (induction sts rule: stage_list_text.induct) auto

lemma read_stages_text:
  assumes "\<forall>(a, b) \<in> set sts. CHR '' '' \<notin> set a \<and> CHR '','' \<notin> set b \<and>
             NUL \<notin> set a \<and> NUL \<notin> set b"
    and "sts \<noteq> []" and "k + length sts \<le> MAX_INJECTION_STAGES"
  shows "read_stages k (stage_list_text sts) sp st =
           (int (k + length sts),
            (\<lambda>i. if k \<le> i \<and> i < k + length sts
                 then long_to_uint (toInt (snd (sts ! (i - k)))) else sp i),
            (\<lambda>i. if k \<le> i \<and> i < k + length sts
                 then long_to_int (toInt (fst (sts ! (i - k)))) else st i))"
  using assms
proof (induction sts arbitrary: k sp st rule: stage_list_text.induct)
  case 1
  then show ?case by simp
next
  case (2 a b)
  then have "k < MAX_INJECTION_STAGES" and "CHR '' '' \<notin> set a" and "CHR '','' \<notin> set b"
    and "NUL \<notin> set a" and "NUL \<notin> set b"
    by auto
  then show ?case
    by (auto simp: read_stages_last fun_eq_iff)
next
  case (3 a b x xs)
  from "3.prems" have k: "k < MAX_INJECTION_STAGES" and a: "CHR '' '' \<notin> set a"
    and b: "CHR '','' \<notin> set b" and na: "NUL \<notin> set a" and nb: "NUL \<notin> set b"
    by auto
  from "3.prems" have rest: "\<forall>(a, b) \<in> set (x # xs). CHR '' '' \<notin> set a \<and> CHR '','' \<notin> set b \<and>
             NUL \<notin> set a \<and> NUL \<notin> set b"
    and len: "(k + 1) + length (x # xs) \<le> MAX_INJECTION_STAGES"
    by auto
  from rest have nr: "NUL \<notin> set (stage_list_text (x # xs))"
    by (intro stage_list_text_no_nul) auto
  have "read_stages k (stage_list_text ((a, b) # x # xs)) sp st =
          read_stages (k + 1) (stage_list_text (x # xs))
            (sp(k := long_to_uint (toInt b))) (st(k := long_to_int (toInt a)))"
    using read_stages_next [OF k a b na nb nr] by simp
  also have "\<dots> =
          (int ((k + 1) + length (x # xs)),
            (\<lambda>i. if k + 1 \<le> i \<and> i < (k + 1) + length (x # xs)
                 then long_to_uint (toInt (snd ((x # xs) ! (i - (k + 1)))))
                 else (sp(k := long_to_uint (toInt b))) i),
            (\<lambda>i. if k + 1 \<le> i \<and> i < (k + 1) + length (x # xs)
                 then long_to_int (toInt (fst ((x # xs) ! (i - (k + 1)))))
                 else (st(k := long_to_int (toInt a))) i))"
    by (rule "3.IH" [OF rest _ len]) simp
  finally show ?case
    by (auto simp: fun_eq_iff nth_Cons' Suc_diff_le)
qed

lemma read_stages_too_many:
  assumes "\<forall>(a, b) \<in> set sts. CHR '' '' \<notin> set a \<and> CHR '','' \<notin> set b \<and>
             NUL \<notin> set a \<and> NUL \<notin> set b"
    and "k \<le> MAX_INJECTION_STAGES" and "MAX_INJECTION_STAGES < k + length sts"
  shows "fst (read_stages k (stage_list_text sts) sp st) = - 1"
  using assms
proof (induction sts arbitrary: k sp st rule: stage_list_text.induct)
  case 1
  then show ?case by (simp add: read_stages_full)
next
  case (2 a b)
  then show ?case by (simp add: read_stages_full)
next
  case (3 a b x xs)
  show ?case
  proof (cases "k < MAX_INJECTION_STAGES")
    case False
    then show ?thesis by (simp add: read_stages_full)
  next
    case True
    from "3.prems" have a: "CHR '' '' \<notin> set a" and b: "CHR '','' \<notin> set b"
      and na: "NUL \<notin> set a" and nb: "NUL \<notin> set b"
      and rest: "\<forall>(a, b) \<in> set (x # xs). CHR '' '' \<notin> set a \<and> CHR '','' \<notin> set b \<and>
             NUL \<notin> set a \<and> NUL \<notin> set b"
      and len: "MAX_INJECTION_STAGES < (k + 1) + length (x # xs)"
      by auto
    from rest have nr: "NUL \<notin> set (stage_list_text (x # xs))"
      by (intro stage_list_text_no_nul) auto
    from True have k1: "k + 1 \<le> MAX_INJECTION_STAGES" by simp
    have "read_stages k (stage_list_text ((a, b) # x # xs)) sp st =
            read_stages (k + 1) (stage_list_text (x # xs))
              (sp(k := long_to_uint (toInt b))) (st(k := long_to_int (toInt a)))"
      using read_stages_next [OF True a b na nb nr] by simp
    then show ?thesis
      using "3.IH" [OF rest k1 len] by simp
  qed
qed

lemma processInjectCommand_prefix:
  "processInjectCommand (''Inject: '' @ txt) sp st = read_stages 0 (c_str txt) sp st"
proof -
  have "startsWith ''Inject: '' (''Inject: '' @ txt)"
    by (rule startsWith_append) simp
  then show ?thesis
    by (simp add: processInjectCommand_def substring_from_drop)
qed

lemma parse_tokens:
  assumes "\<forall>(a, b) \<in> set sts. CHR '' '' \<notin> set a \<and> CHR '','' \<notin> set b \<and>
             NUL \<notin> set a \<and> NUL \<notin> set b"
    and "sts \<noteq> []" and "length sts \<le> 4"
  shows "processInjectCommand (''Inject: '' @ stage_list_text sts) sp st =
           (int (length sts),
            (\<lambda>i. if i < length sts then long_to_uint (toInt (snd (sts ! i))) else sp i),
            (\<lambda>i. if i < length sts then long_to_int (toInt (fst (sts ! i))) else st i))"
proof -
  have le: "length sts \<le> MAX_INJECTION_STAGES"
    using assms(3) by (simp add: MAX_INJECTION_STAGES_def)
  have n: "c_str (stage_list_text sts) = stage_list_text sts"
    using assms(1) by (intro c_str_text stage_list_text_no_nul) auto
  show ?thesis
    using le read_stages_text [OF assms(1,2), where k = 0 and sp = sp and st = st]
    by (subst processInjectCommand_prefix) (simp add: n cong: if_cong)
qed

lemma parse_too_many:
  assumes "\<forall>(a, b) \<in> set sts. CHR '' '' \<notin> set a \<and> CHR '','' \<notin> set b \<and>
             NUL \<notin> set a \<and> NUL \<notin> set b"
    and "4 < length sts"
  shows "fst (processInjectCommand (''Inject: '' @ stage_list_text sts) sp st) = - 1"
proof -
  have n: "c_str (stage_list_text sts) = stage_list_text sts"
    using assms(1) by (intro c_str_text stage_list_text_no_nul) auto
  show ?thesis
    using read_stages_too_many [OF assms(1), where k = 0 and sp = sp and st = st] assms(2)
    by (subst processInjectCommand_prefix) (simp add: n MAX_INJECTION_STAGES_def)
qed

lemma dispatch_inject:
  "dispatch F (''Inject: '' @ txt) st =
     (case processInjectCommand (''Inject: '' @ txt)
             (injectionStageSpeeds st) (injectionStageSteps st) of
        (numberStages, speeds, steps) \<Rightarrow>
          (let st1 = st\<lparr>injectionStageSpeeds := speeds, injectionStageSteps := steps\<rparr>
           in if numberStages = - 1 then Serial_print (''Invalid'' @ [newline]) st1
              else run_stages F 0 numberStages
                     (Serial_print (''Executing'' @ [newline]) st1)))"
proof -
  have p: "startsWith ''Inject: '' (''Inject: '' @ txt)"
    by (rule startsWith_append) simp
  show ?thesis
    using p by (simp add: dispatch_def equals_def c_str_def)
qed

lemma dispatch_inject_tokens:
  assumes "\<forall>(a, b) \<in> set sts. CHR '' '' \<notin> set a \<and> CHR '','' \<notin> set b \<and>
             NUL \<notin> set a \<and> NUL \<notin> set b"
    and "sts \<noteq> []" and "length sts \<le> 4"
  shows "dispatch F (''Inject: '' @ stage_list_text sts) st =
           fold (run_stage F) [0..<length sts]
             (Serial_print (''Executing'' @ [newline])
                (st\<lparr>injectionStageSpeeds :=
                      (\<lambda>i. if i < length sts then long_to_uint (toInt (snd (sts ! i)))
                           else injectionStageSpeeds st i),
                    injectionStageSteps :=
                      (\<lambda>i. if i < length sts then long_to_int (toInt (fst (sts ! i)))
                           else injectionStageSteps st i)\<rparr>))"
  unfolding dispatch_inject parse_tokens [OF assms]
  by (simp add: run_stages_fold)

lemma dispatch_inject_too_many:
  assumes "\<forall>(a, b) \<in> set sts. CHR '' '' \<notin> set a \<and> CHR '','' \<notin> set b \<and>
             NUL \<notin> set a \<and> NUL \<notin> set b"
    and "4 < length sts"
  shows "\<exists>speeds steps.
           dispatch F (''Inject: '' @ stage_list_text sts) st =
             Serial_print (''Invalid'' @ [newline])
               (st\<lparr>injectionStageSpeeds := speeds, injectionStageSteps := steps\<rparr>)"
proof -
  obtain n speeds steps where r:
    "processInjectCommand (''Inject: '' @ stage_list_text sts)
       (injectionStageSpeeds st) (injectionStageSteps st) = (n, speeds, steps)"
    by (cases "processInjectCommand (''Inject: '' @ stage_list_text sts)
                 (injectionStageSpeeds st) (injectionStageSteps st)") auto
  have "n = - 1"
    using parse_too_many [OF assms, of "injectionStageSpeeds st" "injectionStageSteps st"]
    unfolding r by simp
  then show ?thesis
    unfolding dispatch_inject r by auto
qed

lemma sint_word_of_int_16:
  "- 32768 \<le> i \<Longrightarrow> i \<le> 32767 \<Longrightarrow> sint (word_of_int i :: c_int) = i"
  by (simp add: int_word_sint)

lemma abs_int_word_of_int:
  assumes "- 32768 \<le> i" "i \<le> 32767"
  shows "abs_int (word_of_int i) = of_nat (nat \<bar>i\<bar>)"
proof (cases "0 < i")
  case True
  then show ?thesis
    using assms by (simp add: abs_int_def sint_word_of_int_16)
next
  case False
  then have "(of_nat (nat \<bar>i\<bar>) :: c_int) = word_of_int (- i)"
    by simp
  then show ?thesis
    using False assms by (simp add: abs_int_def sint_word_of_int_16)
qed

lemma map_index_nth: "map (\<lambda>k. f (xs ! k)) [0..<length xs] = map f xs"
proof -
  have "map (\<lambda>k. f (xs ! k)) [0..<length xs] = map f (map (nth xs) [0..<length xs])"
    by (simp add: comp_def)
  then show ?thesis
    by (simp only: map_nth)
qed

lemma foldl_index_nth: "foldl (\<lambda>d k. g d (xs ! k)) d [0..<length xs] = foldl g d xs"
  using foldl_map [of g d "nth xs" "[0..<length xs]"] by (simp add: map_nth)

lemma abs_int_sint: "abs_int w = of_nat (nat \<bar>sint w\<bar>)"
proof -
  have "- 32768 \<le> sint w" and "sint w \<le> 32767"
    using sint_ge [of w] sint_lt [of w] by simp_all
  then have "abs_int (word_of_int (sint w)) = of_nat (nat \<bar>sint w\<bar>)"
    by (rule abs_int_word_of_int)
  then show ?thesis
    by simp
qed

lemma stage_steps_show_int:
  "- 32768 \<le> i \<Longrightarrow> i \<le> 32767 \<Longrightarrow> stage_steps (show_int i) = i"
  by (simp add: stage_steps_def toInt_show_int long_to_int_of_int sint_word_of_int_16)

lemma stage_speed_dec: "n \<le> 65535 \<Longrightarrow> unat (stage_speed (dec n)) = n"
  by (simp add: stage_speed_def toInt_dec long_to_uint_of_nat unat_of_nat)

lemma inject_tokens_calls:
  assumes "\<forall>(a, b) \<in> set sts. CHR '' '' \<notin> set a \<and> CHR '','' \<notin> set b \<and>
             NUL \<notin> set a \<and> NUL \<notin> set b"
    and "sts \<noteq> []" and "length sts \<le> 4"
  shows "stepper_calls (dispatch F (''Inject: '' @ stage_list_text sts) st) =
           stepper_calls st @
           concat (map (\<lambda>(a, b).
                          [SetSpeed (stage_speed b),
                           Step (of_nat (nat \<bar>stage_steps a\<bar>))
                                (if 0 < stage_steps a then FORWARD else BACKWARD) DOUBLE,
                           Release]) sts)"
proof -
  let ?G = "\<lambda>(a, b).
              [SetSpeed (stage_speed b),
               Step (of_nat (nat \<bar>stage_steps a\<bar>))
                    (if 0 < stage_steps a then FORWARD else BACKWARD) DOUBLE,
               Release]"
  let ?A = "\<lambda>i. if i < length sts then long_to_uint (toInt (snd (sts ! i)))
                else injectionStageSpeeds st i"
  let ?B = "\<lambda>i. if i < length sts then long_to_int (toInt (fst (sts ! i)))
                else injectionStageSteps st i"
  have one: "[SetSpeed (?A k), Step (abs_int (?B k))
                (if 0 < sint (?B k) then FORWARD else BACKWARD) DOUBLE, Release]
             = ?G (sts ! k)" if "k \<in> set [0..<length sts]" for k
    using that by (simp add: case_prod_beta abs_int_sint stage_steps_def stage_speed_def)
  have "map (\<lambda>k. [SetSpeed (?A k), Step (abs_int (?B k))
                (if 0 < sint (?B k) then FORWARD else BACKWARD) DOUBLE, Release])
          [0..<length sts]
        = map (\<lambda>k. ?G (sts ! k)) [0..<length sts]"
    by (rule map_cong [OF refl one])
  also have "\<dots> = map ?G sts"
    by (rule map_index_nth)
  finally show ?thesis
    unfolding dispatch_inject_tokens [OF assms]
    by (simp add: fold_run_stage_calls Serial_print_def)
qed

lemma inject_tokens_dye:
  assumes "\<forall>(a, b) \<in> set sts. CHR '' '' \<notin> set a \<and> CHR '','' \<notin> set b \<and>
             NUL \<notin> set a \<and> NUL \<notin> set b"
    and "sts \<noteq> []" and "length sts \<le> 4"
  shows "dyeInjected (dispatch F (''Inject: '' @ stage_list_text sts) st) =
           foldl (\<lambda>d (a, b).
                    f_add F d (f_div F (f_mul F (f_of_int F (stage_steps a))
                                                (volumePerRevolution F))
                                       (f_of_int F 200)))
             (dyeInjected st) sts"
proof -
  let ?g = "\<lambda>d (a, b).
              f_add F d (f_div F (f_mul F (f_of_int F (stage_steps a)) (volumePerRevolution F))
                                 (f_of_int F 200))"
  let ?B = "\<lambda>i. if i < length sts then long_to_int (toInt (fst (sts ! i)))
                else injectionStageSteps st i"
  have one: "f_add F d (f_div F (f_mul F (f_of_int F (sint (?B k))) (volumePerRevolution F))
                               (f_of_int F (uint stepsPerRevolution)))
             = ?g d (sts ! k)" if "k \<in> set [0..<length sts]" for d k
    using that by (simp add: case_prod_beta stage_steps_def stepsPerRevolution_def)
  have "foldl (\<lambda>d k. f_add F d
                 (f_div F (f_mul F (f_of_int F (sint (?B k))) (volumePerRevolution F))
                          (f_of_int F (uint stepsPerRevolution))))
          (dyeInjected st) [0..<length sts]
        = foldl (\<lambda>d k. ?g d (sts ! k)) (dyeInjected st) [0..<length sts]"
    by (rule foldl_cong [OF refl refl one])
  also have "\<dots> = foldl ?g (dyeInjected st) sts"
    by (rule foldl_index_nth)
  finally show ?thesis
    unfolding dispatch_inject_tokens [OF assms]
    by (simp add: fold_run_stage_dye Serial_print_def)
qed

lemma inject_tokens_printed:
  assumes "\<forall>(a, b) \<in> set sts. CHR '' '' \<notin> set a \<and> CHR '','' \<notin> set b \<and>
             NUL \<notin> set a \<and> NUL \<notin> set b"
    and "sts \<noteq> []" and "length sts \<le> 4"
  shows "serial_printed (dispatch F (''Inject: '' @ stage_list_text sts) st) =
           serial_printed st @ [''Executing'' @ [newline]]"
proof -
  show ?thesis
    unfolding dispatch_inject_tokens [OF assms]
    by (simp add: fold_run_stage_frame Serial_print_def)
qed

lemma foldl_exact_tokens:
  "foldl (\<lambda>d (a, b).
            f_add (exact_ops v fmt) d
              (f_div (exact_ops v fmt)
                 (f_mul (exact_ops v fmt) (f_of_int (exact_ops v fmt) (stage_steps a))
                    (volumePerRevolution (exact_ops v fmt)))
                 (f_of_int (exact_ops v fmt) 200))) d0 sts
   = d0 + sum_list (map (\<lambda>(a, b). real_of_int (stage_steps a) * v / 200) sts)"
  by (induction sts arbitrary: d0) (simp_all add: exact_ops_def case_prod_beta add.assoc)

lemma unat_word_of_int_16: "unat (word_of_int k :: c_uint) = nat (k mod 65536)"
  by (simp add: unat_eq_nat_uint uint_word_of_int)

lemma stored_steps: "long_to_int (toInt t) = word_of_int (leading_value t)"
  by (simp add: toInt_leading_value long_to_int_of_int)

lemma stored_speed: "long_to_uint (toInt t) = word_of_int (leading_value t)"
  by (simp add: toInt_leading_value long_to_uint_of_int)

lemma stage_steps_numeral:
  "- 32768 \<le> leading_value a \<Longrightarrow> leading_value a \<le> 32767 \<Longrightarrow>
   stage_steps a = leading_value a"
  by (simp add: stage_steps_def stored_steps sint_word_of_int_16)

lemma stage_speed_numeral: "stage_speed b = word_of_int (leading_value b)"
  by (simp add: stage_speed_def stored_speed)

subsection \<open>A well-formed injection\<close>

text \<open>
  C1, as amended. Take an \<open>Inject\<close> command with between one and four stages whose
  tokens are numerals, the steps between \<open>-32768\<close> and \<open>32767\<close> and the speeds between
  0 and \<open>65535\<close>. Dispatching it prints \<open>Executing\<close>, then for each stage in the order
  given it calls \<open>setSpeed\<close> with the speed written, \<open>step\<close> with the absolute value
  of the steps written and the direction of their sign (forward when positive), and
  \<open>release\<close>: one such triple per stage and nothing else. \<open>dyeInjected\<close> ends as its
  old value with the contribution \<open>steps * volumePerRevolution / stepsPerRevolution\<close>
  of each stage added to it, stage by stage in that order, in the float arithmetic
  \<open>F\<close>; in exact arithmetic the change is the sum of the contributions.
\<close>

theorem inject_runs_stages_in_order:
  assumes "1 \<le> length sts" and "length sts \<le> 4"
    and "\<forall>(a, b) \<in> set sts.
           is_numeral a \<and> - 32768 \<le> leading_value a \<and> leading_value a \<le> 32767 \<and>
           is_numeral b \<and> 0 \<le> leading_value b \<and> leading_value b \<le> 65535"
  shows "serial_printed (dispatch F (''Inject: '' @ stage_list_text sts) st) =
           serial_printed st @ [''Executing'' @ [newline]] \<and>
         stepper_calls (dispatch F (''Inject: '' @ stage_list_text sts) st) =
           stepper_calls st @
           concat (map (\<lambda>(a, b).
                          [SetSpeed (word_of_int (leading_value b)),
                           Step (word_of_int \<bar>leading_value a\<bar>)
                                (if 0 < leading_value a then FORWARD else BACKWARD) DOUBLE,
                           Release]) sts) \<and>
         (\<forall>(a, b) \<in> set sts.
            unat (word_of_int (leading_value b) :: c_uint) = nat (leading_value b) \<and>
            unat (word_of_int \<bar>leading_value a\<bar> :: c_uint) = nat \<bar>leading_value a\<bar>) \<and>
         dyeInjected (dispatch F (''Inject: '' @ stage_list_text sts) st) =
           foldl (\<lambda>d (a, b).
                    f_add F d (f_div F (f_mul F (f_of_int F (leading_value a))
                                                (volumePerRevolution F))
                                       (f_of_int F 200)))
             (dyeInjected st) sts \<and>
         dyeInjected (dispatch (exact_ops v fmt) (''Inject: '' @ stage_list_text sts) rst)
             - dyeInjected rst =
           sum_list (map (\<lambda>(a, b). real_of_int (leading_value a) * v / 200) sts)"
proof -
  have ne: "sts \<noteq> []"
    using assms(1) by auto
  have ok: "\<forall>(a, b) \<in> set sts. CHR '' '' \<notin> set a \<and> CHR '','' \<notin> set b \<and>
             NUL \<notin> set a \<and> NUL \<notin> set b"
    using assms(3) is_numeral_text by fastforce
  have steps: "stage_steps a = leading_value a" if "(a, b) \<in> set sts" for a b
    using assms(3) that by (intro stage_steps_numeral) auto
  note p = inject_tokens_printed [OF ok ne assms(2)]
  have c: "stepper_calls (dispatch F (''Inject: '' @ stage_list_text sts) st) =
           stepper_calls st @
           concat (map (\<lambda>(a, b).
                          [SetSpeed (word_of_int (leading_value b)),
                           Step (word_of_int \<bar>leading_value a\<bar>)
                                (if 0 < leading_value a then FORWARD else BACKWARD) DOUBLE,
                           Release]) sts)"
  proof -
    have "map (\<lambda>(a, b).
                 [SetSpeed (stage_speed b),
                  Step (of_nat (nat \<bar>stage_steps a\<bar>))
                       (if 0 < stage_steps a then FORWARD else BACKWARD) DOUBLE,
                  Release]) sts =
          map (\<lambda>(a, b).
                 [SetSpeed (word_of_int (leading_value b)),
                  Step (word_of_int \<bar>leading_value a\<bar>)
                       (if 0 < leading_value a then FORWARD else BACKWARD) DOUBLE,
                  Release]) sts"
      by (rule map_cong [OF refl]) (auto simp: steps stage_speed_numeral)
    then show ?thesis
      by (simp only: inject_tokens_calls [OF ok ne assms(2)])
  qed
  have d: "dyeInjected (dispatch G (''Inject: '' @ stage_list_text sts) s) =
           foldl (\<lambda>d (a, b).
                    f_add G d (f_div G (f_mul G (f_of_int G (leading_value a))
                                                (volumePerRevolution G))
                                       (f_of_int G 200)))
             (dyeInjected s) sts" for G :: "'x float_ops" and s
  proof -
    have "foldl (\<lambda>d (a, b).
                    f_add G d (f_div G (f_mul G (f_of_int G (stage_steps a))
                                                (volumePerRevolution G))
                                       (f_of_int G 200)))
             (dyeInjected s) sts =
          foldl (\<lambda>d (a, b).
                    f_add G d (f_div G (f_mul G (f_of_int G (leading_value a))
                                                (volumePerRevolution G))
                                       (f_of_int G 200)))
             (dyeInjected s) sts"
      by (rule foldl_cong [OF refl refl]) (auto simp: steps)
    then show ?thesis
      by (simp only: inject_tokens_dye [OF ok ne assms(2)])
  qed
  have e: "dyeInjected (dispatch (exact_ops v fmt) (''Inject: '' @ stage_list_text sts) rst)
             - dyeInjected rst =
           sum_list (map (\<lambda>(a, b). real_of_int (leading_value a) * v / 200) sts)"
  proof -
    have "foldl (\<lambda>d (a, b).
             f_add (exact_ops v fmt) d
               (f_div (exact_ops v fmt)
                  (f_mul (exact_ops v fmt) (f_of_int (exact_ops v fmt) (leading_value a))
                     (volumePerRevolution (exact_ops v fmt)))
                  (f_of_int (exact_ops v fmt) 200))) d0 sts
          = d0 + sum_list (map (\<lambda>(a, b). real_of_int (leading_value a) * v / 200) sts)" for d0
      by (induction sts arbitrary: d0) (simp_all add: exact_ops_def case_prod_beta add.assoc)
    then show ?thesis
      unfolding d by simp
  qed
  have u: "\<forall>(a, b) \<in> set sts.
            unat (word_of_int (leading_value b) :: c_uint) = nat (leading_value b) \<and>
            unat (word_of_int \<bar>leading_value a\<bar> :: c_uint) = nat \<bar>leading_value a\<bar>"
    using assms(3) by (auto simp: unat_word_of_int_16)
  show ?thesis
    by (intro conjI p c d e u)
qed

theorem inject_runs_stages_in_order_witness:
  "stage_list_text [(''200'', ''60''), (''-0100'', ''+030'')] = ''200 60,-0100 +030'' \<and>
   serial_printed (dispatch bench_ops ''Inject: 200 60,-0100 +030'' (power_on bench_ops))
     = [''Executing'' @ [newline]] \<and>
   stepper_calls (dispatch bench_ops ''Inject: 200 60,-0100 +030'' (power_on bench_ops))
     = [SetSpeed 60, Step 200 FORWARD DOUBLE, Release,
        SetSpeed 30, Step 100 BACKWARD DOUBLE, Release] \<and>
   dyeInjected (dispatch bench_ops ''Inject: 200 60,-0100 +030'' (power_on bench_ops))
     = 200 * (60 / 4.2188 / 40) / 200 - 100 * (60 / 4.2188 / 40) / 200"
proof -
  have v: "leading_value ''200'' = 200" "leading_value ''-0100'' = - 100"
    "leading_value ''60'' = 60" "leading_value ''+030'' = 30"
    by (simp_all add: leading_value_def isspace_def isdigit_def digits_value_def)
  have n: "is_numeral ''200''" "is_numeral ''-0100''" "is_numeral ''60''" "is_numeral ''+030''"
    by (simp_all add: is_numeral_def isdigit_def)
  show ?thesis
    using inject_runs_stages_in_order
            [of "[(''200'', ''60''), (''-0100'', ''+030'')]" bench_ops "power_on bench_ops"]
    by (simp add: v n power_on_def bench_ops_def exact_ops_def)
qed

text \<open>
  The claim as it was stated covers every well-formed command. The numeral \<open>40000\<close>
  does not fit the 16-bit \<open>int\<close> of the stage array: for \<open>Inject: 40000 60\<close> the stepper
  is told to go 25536 steps backward.
\<close>

theorem steps_beyond_int_wrap:
  "is_numeral ''40000'' \<and> leading_value ''40000'' = 40000 \<and>
   stepper_calls (dispatch bench_ops ''Inject: 40000 60'' (power_on bench_ops)) =
     [SetSpeed 60, Step 25536 BACKWARD DOUBLE, Release]"
proof -
  have v: "leading_value ''40000'' = 40000" "leading_value ''60'' = 60"
    by (simp_all add: leading_value_def isspace_def isdigit_def digits_value_def)
  have n: "is_numeral ''40000''"
    by (simp add: is_numeral_def isdigit_def)
  have s: "stage_steps ''40000'' = - 25536" "stage_speed ''60'' = 60"
    by (simp_all add: stage_steps_def stage_speed_def stored_steps stored_speed v int_word_sint)
  have "stepper_calls (dispatch bench_ops (''Inject: '' @ stage_list_text [(''40000'', ''60'')])
          (power_on bench_ops)) =
        [SetSpeed 60, Step 25536 BACKWARD DOUBLE, Release]"
    by (subst inject_tokens_calls) (simp_all add: s power_on_def)
  then show ?thesis
    using v n by simp
qed

subsection \<open>Resetting the counter\<close>

text \<open>
  C6. Whatever the state before, dispatching \<open>ResetDyeInjected\<close> sets \<open>dyeInjected\<close> to
  the float zero, prints \<open>ACK\<close> and a newline, and changes nothing else.
\<close>

theorem reset_dye_injected:
  "dispatch F ''ResetDyeInjected'' st =
     st\<lparr>dyeInjected := f_of_int F 0,
        serial_printed := serial_printed st @ [''ACK'' @ [newline]]\<rparr>"
  by (simp add: dispatch_def Serial_print_def equals_def c_str_def)

subsection \<open>The empty stage list\<close>

text \<open>
  C2. The line \<open>Inject: \<close> with nothing after the prefix. The claim is that it is
  rejected as invalid. In the sketch \<open>processInjectCommand\<close> finds no space in the empty
  rest while \<open>numberStages\<close> is still 0 and returns that 0, which is not \<open>-1\<close>: the
  command is accepted with no stage, \<open>Executing\<close> is printed and nothing else happens.
\<close>

theorem empty_stage_list_executes:
  "processInjectCommand ''Inject: '' sp stp = (0, sp, stp) \<and>
   dispatch F ''Inject: '' st =
     st\<lparr>serial_printed := serial_printed st @ [''Executing'' @ [newline]]\<rparr>"
proof -
  have p: "processInjectCommand (''Inject: '' @ []) sp stp = (0, sp, stp)" for sp stp
    unfolding processInjectCommand_prefix
    by (simp add: c_str_def read_stages_no_space MAX_INJECTION_STAGES_def)
  have r: "run_stages F 0 0 s = s" for s
    by (subst run_stages.simps) simp
  have "dispatch F (''Inject: '' @ []) st =
          st\<lparr>serial_printed := serial_printed st @ [''Executing'' @ [newline]]\<rparr>"
    unfolding dispatch_inject p by (simp add: r Serial_print_def)
  then show ?thesis
    using p by simp
qed

subsection \<open>More than four stages\<close>

text \<open>
  C3. An \<open>Inject\<close> command whose stage list has five or more stages (each a steps token
  free of spaces, a space, and a speed token free of commas, both of them text with no
  NUL byte, as every command is that \<open>loop\<close> hands on) is answered with \<open>Invalid\<close> and
  nothing else is printed, so \<open>Executing\<close> is not; no call reaches the stepper and
  \<open>dyeInjected\<close> keeps its value.
\<close>

theorem five_or_more_stages_invalid:
  assumes "\<forall>(a, b) \<in> set sts. CHR '' '' \<notin> set a \<and> CHR '','' \<notin> set b \<and>
             NUL \<notin> set a \<and> NUL \<notin> set b"
    and "5 \<le> length sts"
  shows "serial_printed (dispatch F (''Inject: '' @ stage_list_text sts) st) =
           serial_printed st @ [''Invalid'' @ [newline]] \<and>
         stepper_calls (dispatch F (''Inject: '' @ stage_list_text sts) st) = stepper_calls st \<and>
         dyeInjected (dispatch F (''Inject: '' @ stage_list_text sts) st) = dyeInjected st"
proof -
  have "4 < length sts"
    using assms(2) by simp
  from dispatch_inject_too_many [OF assms(1) this, of F st]
  obtain speeds steps where
    "dispatch F (''Inject: '' @ stage_list_text sts) st =
       Serial_print (''Invalid'' @ [newline])
         (st\<lparr>injectionStageSpeeds := speeds, injectionStageSteps := steps\<rparr>)"
    by blast
  then show ?thesis
    by (simp add: Serial_print_def)
qed

theorem five_or_more_stages_invalid_witness:
  "stage_list_text [(''1'', ''2''), (''3'', ''4''), (''5'', ''6''), (''7'', ''8''), (''9'', ''10'')]
     = ''1 2,3 4,5 6,7 8,9 10'' \<and>
   serial_printed (dispatch bench_ops ''Inject: 1 2,3 4,5 6,7 8,9 10'' (power_on bench_ops))
     = [''Invalid'' @ [newline]] \<and>
   stepper_calls (dispatch bench_ops ''Inject: 1 2,3 4,5 6,7 8,9 10'' (power_on bench_ops)) = [] \<and>
   dyeInjected (dispatch bench_ops ''Inject: 1 2,3 4,5 6,7 8,9 10'' (power_on bench_ops)) = 0"
  using five_or_more_stages_invalid
          [of "[(''1'', ''2''), (''3'', ''4''), (''5'', ''6''), (''7'', ''8''), (''9'', ''10'')]"
              bench_ops "power_on bench_ops"]
  by (simp add: power_on_def bench_ops_def exact_ops_def)

subsection \<open>A negative speed\<close>

text \<open>
  C4, as amended. A stage whose speed token is a negative numeral, a minus sign and
  digits, does not make parsing fail: the command is accepted with all its stages, and
  the speed stored for that stage, read as an unsigned 16-bit integer, is the value of
  the numeral reduced modulo \<open>65536\<close> (\<open>65506\<close> for \<open>-30\<close> and for \<open>-030\<close>). It is 0
  exactly when the digits write a multiple of \<open>65536\<close>, as in \<open>-0\<close>.
\<close>

theorem negative_speed_wraps:
  assumes "\<forall>(a, b) \<in> set sts. CHR '' '' \<notin> set a \<and> CHR '','' \<notin> set b \<and>
             NUL \<notin> set a \<and> NUL \<notin> set b"
    and "1 \<le> length sts" and "length sts \<le> 4" and "i < length sts"
    and "snd (sts ! i) = CHR ''-'' # ds" and "ds \<noteq> []" and "list_all isdigit ds"
  shows "fst (processInjectCommand (''Inject: '' @ stage_list_text sts) sp st) = int (length sts) \<and>
         unat (fst (snd (processInjectCommand (''Inject: '' @ stage_list_text sts) sp st)) i) =
           nat (- int (digits_value ds) mod 65536) \<and>
         (fst (snd (processInjectCommand (''Inject: '' @ stage_list_text sts) sp st)) i = 0
            \<longleftrightarrow> 65536 dvd digits_value ds)"
proof -
  have ne: "sts \<noteq> []"
    using assms(2) by auto
  let ?w = "word_of_int (- int (digits_value ds)) :: c_uint"
  have w: "long_to_uint (toInt (CHR ''-'' # ds)) = ?w"
    by (simp only: stored_speed leading_value_minus [OF assms(7)])
  have u: "unat ?w = nat (- int (digits_value ds) mod 65536)"
    by (rule unat_word_of_int_16)
  have z: "?w = 0 \<longleftrightarrow> 65536 dvd digits_value ds"
  proof -
    have "?w = 0 \<longleftrightarrow> - int (digits_value ds) mod 65536 = 0"
      using word_of_int_eq_iff [of "- int (digits_value ds)" 0, where 'a = 16]
      by (simp add: take_bit_eq_mod)
    also have "\<dots> \<longleftrightarrow> 65536 dvd int (digits_value ds)"
      by (simp add: mod_eq_0_iff_dvd)
    also have "\<dots> \<longleftrightarrow> 65536 dvd digits_value ds"
      by presburger
    finally show ?thesis .
  qed
  have slot: "fst (snd (processInjectCommand (''Inject: '' @ stage_list_text sts) sp st)) i = ?w"
    unfolding parse_tokens [OF assms(1) ne assms(3)] using assms(4,5) w by simp
  have n: "fst (processInjectCommand (''Inject: '' @ stage_list_text sts) sp st) = int (length sts)"
    unfolding parse_tokens [OF assms(1) ne assms(3)] by simp
  show ?thesis
    unfolding slot using n u z by blast
qed

theorem negative_speed_wraps_witness:
  "stage_list_text [(''5'', ''-030'')] = ''5 -030'' \<and> digits_value ''030'' = 30 \<and>
   fst (processInjectCommand ''Inject: 5 -030'' (\<lambda>i. 0) (\<lambda>i. 0)) = 1 \<and>
   unat (fst (snd (processInjectCommand ''Inject: 5 -030'' (\<lambda>i. 0) (\<lambda>i. 0))) 0) = 65506"
proof -
  have d: "digits_value ''030'' = 30"
    by (simp add: digits_value_def)
  show ?thesis
    using negative_speed_wraps [of "[(''5'', ''-030'')]" 0 "''030''" "\<lambda>i. 0" "\<lambda>i. 0"]
    by (simp add: d isdigit_def)
qed

text \<open>
  The claim as it was stated has the speed 0. For \<open>Inject: 5 -30\<close> the sketch stores
  \<open>65506\<close>: \<open>toInt\<close> returns the \<open>long\<close> \<open>-30\<close> and the cast to \<open>unsigned int\<close> wraps
  it around.
\<close>

theorem negative_speed_not_zero:
  "fst (processInjectCommand ''Inject: 5 -30'' (\<lambda>i. 0) (\<lambda>i. 0)) = 1 \<and>
   unat (fst (snd (processInjectCommand ''Inject: 5 -30'' (\<lambda>i. 0) (\<lambda>i. 0))) 0) = 65506 \<and>
   fst (snd (processInjectCommand ''Inject: 5 -30'' (\<lambda>i. 0) (\<lambda>i. 0))) 0 \<noteq> 0"
proof -
  have v: "long_to_uint (toInt ''-30'') = 65506"
    by (simp add: long_to_uint_def toInt_def atol_def isspace_def isdigit_def)
  have "processInjectCommand (''Inject: '' @ stage_list_text [(''5'', ''-30'')]) (\<lambda>i. 0) (\<lambda>i. 0) =
          (1, (\<lambda>i. if i < 1 then long_to_uint (toInt ''-30'') else 0),
              (\<lambda>i. if i < 1 then long_to_int (toInt ''5'') else 0))"
    by (subst parse_tokens) (simp_all cong: if_cong)
  then show ?thesis
    by (simp add: v)
qed

subsection \<open>Tokens that are not numerals\<close>

text \<open>
  C8, as amended. Whatever text a steps token or a speed token is, parsing does not
  reject the command for it. The value stored is the value of the numeral at the start of
  the token (after optional white space and one optional sign, the digits up to the first
  other character) wrapped to 16 bits, signed for the steps and unsigned for the speed;
  it is 0 when no digit stands there, as in \<open>abc\<close>.
\<close>

theorem token_value_is_leading_numeral:
  assumes "\<forall>(a, b) \<in> set sts. CHR '' '' \<notin> set a \<and> CHR '','' \<notin> set b \<and>
             NUL \<notin> set a \<and> NUL \<notin> set b"
    and "1 \<le> length sts" and "length sts \<le> 4" and "i < length sts"
  shows "fst (processInjectCommand (''Inject: '' @ stage_list_text sts) sp st) = int (length sts) \<and>
         sint (snd (snd (processInjectCommand (''Inject: '' @ stage_list_text sts) sp st)) i) =
           (leading_value (fst (sts ! i)) + 32768) mod 65536 - 32768 \<and>
         unat (fst (snd (processInjectCommand (''Inject: '' @ stage_list_text sts) sp st)) i) =
           nat (leading_value (snd (sts ! i)) mod 65536) \<and>
         (no_numeral (fst (sts ! i)) \<longrightarrow>
            leading_value (fst (sts ! i)) = 0 \<and>
            snd (snd (processInjectCommand (''Inject: '' @ stage_list_text sts) sp st)) i = 0) \<and>
         (no_numeral (snd (sts ! i)) \<longrightarrow>
            leading_value (snd (sts ! i)) = 0 \<and>
            fst (snd (processInjectCommand (''Inject: '' @ stage_list_text sts) sp st)) i = 0)"
proof -
  have ne: "sts \<noteq> []"
    using assms(2) by auto
  have a: "snd (snd (processInjectCommand (''Inject: '' @ stage_list_text sts) sp st)) i =
             word_of_int (leading_value (fst (sts ! i)))"
    unfolding parse_tokens [OF assms(1) ne assms(3)] using assms(4) by (simp add: stored_steps)
  have b: "fst (snd (processInjectCommand (''Inject: '' @ stage_list_text sts) sp st)) i =
             word_of_int (leading_value (snd (sts ! i)))"
    unfolding parse_tokens [OF assms(1) ne assms(3)] using assms(4) by (simp add: stored_speed)
  have n: "fst (processInjectCommand (''Inject: '' @ stage_list_text sts) sp st) = int (length sts)"
    unfolding parse_tokens [OF assms(1) ne assms(3)] by simp
  show ?thesis
    unfolding a b
    using n by (simp add: int_word_sint unat_word_of_int_16 no_numeral_leading_value)
qed

theorem token_value_is_leading_numeral_witness:
  "stage_list_text [(''abc'', ''12abc''), (''40000abc'', ''65536abc'')]
     = ''abc 12abc,40000abc 65536abc'' \<and>
   fst (processInjectCommand ''Inject: abc 12abc,40000abc 65536abc'' (\<lambda>i. 7) (\<lambda>i. 7)) = 2 \<and>
   snd (snd (processInjectCommand ''Inject: abc 12abc,40000abc 65536abc''
               (\<lambda>i. 7) (\<lambda>i. 7))) 0 = 0 \<and>
   leading_value ''40000abc'' = 40000 \<and>
   sint (snd (snd (processInjectCommand ''Inject: abc 12abc,40000abc 65536abc''
                     (\<lambda>i. 7) (\<lambda>i. 7))) 1) = - 25536 \<and>
   leading_value ''65536abc'' = 65536 \<and>
   unat (fst (snd (processInjectCommand ''Inject: abc 12abc,40000abc 65536abc''
                     (\<lambda>i. 7) (\<lambda>i. 7))) 1) = 0"
proof -
  have a: "no_numeral ''abc''"
    by (simp add: no_numeral_def isspace_def isdigit_def)
  have v: "leading_value ''40000abc'' = 40000" "leading_value ''65536abc'' = 65536"
    by (simp_all add: leading_value_def isspace_def isdigit_def digits_value_def)
  show ?thesis
    using token_value_is_leading_numeral
            [of "[(''abc'', ''12abc''), (''40000abc'', ''65536abc'')]" 0 "\<lambda>i. 7" "\<lambda>i. 7"]
          token_value_is_leading_numeral
            [of "[(''abc'', ''12abc''), (''40000abc'', ''65536abc'')]" 1 "\<lambda>i. 7" "\<lambda>i. 7"]
    by (simp add: a v)
qed

text \<open>
  The claim as it was stated gives every non-numeric token the value 0. The token
  \<open>12abc\<close> is not a numeral, and \<open>Inject: 12abc 60\<close> is one stage of 12 steps.
\<close>

theorem numeral_prefix_not_zero:
  "fst (processInjectCommand ''Inject: 12abc 60'' (\<lambda>i. 0) (\<lambda>i. 0)) = 1 \<and>
   sint (snd (snd (processInjectCommand ''Inject: 12abc 60'' (\<lambda>i. 0) (\<lambda>i. 0))) 0) = 12 \<and>
   snd (snd (processInjectCommand ''Inject: 12abc 60'' (\<lambda>i. 0) (\<lambda>i. 0))) 0 \<noteq> 0"
proof -
  have v: "long_to_int (toInt ''12abc'') = 12"
    by (simp add: long_to_int_def toInt_def atol_def isspace_def isdigit_def)
  have "processInjectCommand (''Inject: '' @ stage_list_text [(''12abc'', ''60'')]) (\<lambda>i. 0) (\<lambda>i. 0) =
          (1, (\<lambda>i. if i < 1 then long_to_uint (toInt ''60'') else 0),
              (\<lambda>i. if i < 1 then long_to_int (toInt ''12abc'') else 0))"
    by (subst parse_tokens) (simp_all cong: if_cong)
  then show ?thesis
    by (simp add: v)
qed

subsection \<open>The line buffer\<close>

lemma trim_command_line_text:
  assumes "newline \<notin> set line" and "NUL \<notin> set line"
  shows "trim_command (line @ newline # rest) = line"
proof -
  have "indexOf newline (line @ newline # rest) = int (length line)"
    using assms by (intro indexOf_first) simp_all
  then show ?thesis
    using assms(2) by (simp add: trim_command_def as_unsigned_int substring_zero c_str_text)
qed

lemma trim_command_line:
  assumes "newline \<notin> set line" and "length (line @ newline # rest) \<le> 65535"
  shows "trim_command (line @ newline # rest) = c_str line"
proof (cases "NUL \<in> set line")
  case False
  then show ?thesis
    using assms(1) by (simp add: trim_command_line_text c_str_text)
next
  case True
  then have c: "c_str (line @ newline # rest) = c_str line"
    by (rule c_str_append_cut)
  have "newline \<notin> set (c_str (line @ newline # rest))"
    unfolding c using assms(1) c_str_subset by blast
  then have "indexOf newline (line @ newline # rest) = - 1"
    by (intro indexOf_absent) simp_all
  then show ?thesis
    using assms(2) c by (simp add: trim_command_def as_unsigned_minus_one substring_zero)
qed

lemma trim_command_no_newline:
  "newline \<notin> set s \<Longrightarrow> length s \<le> 65535 \<Longrightarrow> trim_command s = c_str s"
  by (simp add: trim_command_def indexOf_absent_text as_unsigned_minus_one substring_zero)

lemma loop_line:
  assumes "commandFromComputerComplete st"
    and "commandFromComputerString st = line @ newline # rest"
    and "newline \<notin> set line" and "length (commandFromComputerString st) \<le> 65535"
  shows "loop F st =
           (dispatch F (c_str line) (st\<lparr>commandFromComputerString := c_str line\<rparr>))
             \<lparr>commandFromComputerString := [], commandFromComputerComplete := False\<rparr>"
proof -
  have "trim_command (commandFromComputerString st) = c_str line"
    unfolding assms(2) using assms(3,4) by (intro trim_command_line) (simp_all add: assms(2))
  then show ?thesis
    using assms(1) by (simp add: loop_def Let_def)
qed

lemma dispatch_invalid:
  assumes "c_str cmd \<noteq> ''Status?''" "c_str cmd \<noteq> ''Program?''" "c_str cmd \<noteq> ''Version?''"
    "c_str cmd \<noteq> ''DyeInjected?''" "c_str cmd \<noteq> ''ResetDyeInjected''"
    "c_str cmd \<noteq> ''StepsPerRevolution?''" "c_str cmd \<noteq> ''VolumePerRevolution?''"
    "\<not> startsWith ''Inject: '' cmd"
  shows "dispatch F cmd st = Serial_print (''Invalid'' @ [newline]) st"
  using assms by (simp add: dispatch_def equals_text)

lemma shift_down_from:
  "i < length s \<Longrightarrow> shift_down i s = take i s @ drop (Suc i) s @ [last s]"
proof (induction "length s - 1 - i" arbitrary: i s)
  case 0
  then have i: "i = length s - 1" and ne: "s \<noteq> []"
    by auto
  have "shift_down i s = s"
    using i by (subst shift_down.simps) simp
  moreover have "take i s @ drop (Suc i) s @ [last s] = butlast s @ [last s]"
    using i ne by (simp add: butlast_conv_take)
  ultimately show ?case
    using ne by simp
next
  case (Suc d)
  then have lt: "i < length s - 1"
    by simp
  let ?s = "s[i := s ! (i + 1)]"
  have d: "d = length ?s - 1 - (i + 1)" and i1: "i + 1 < length ?s"
    using Suc.hyps(2) lt by simp_all
  have last: "last ?s = last s"
  proof -
    have "i \<noteq> length s - 1" and "s \<noteq> []"
      using lt by auto
    then show ?thesis
      using last_list_update [of s i "s ! (i + 1)"] by simp
  qed
  have "shift_down i s = shift_down (i + 1) ?s"
    using lt by (subst shift_down.simps) simp
  also have "\<dots> = take (i + 1) ?s @ drop (Suc (i + 1)) ?s @ [last ?s]"
    by (rule Suc.hyps(1) [OF d i1])
  also have "take (i + 1) ?s = take i s @ [s ! (i + 1)]"
    using lt by (simp add: take_Suc_conv_app_nth)
  also have "drop (Suc (i + 1)) ?s = drop (Suc (i + 1)) s"
    by simp
  also have "(take i s @ [s ! (i + 1)]) @ drop (Suc (i + 1)) s @ [last ?s] =
             take i s @ drop (Suc i) s @ [last s]"
  proof -
    have "drop (Suc i) s = s ! Suc i # drop (Suc (Suc i)) s"
      using lt Cons_nth_drop_Suc [of "Suc i" s] by simp
    then show ?thesis
      unfolding last by simp
  qed
  finally show ?case .
qed

lemma shift_down_append:
  assumes "s \<noteq> []"
  shows "(shift_down 0 s)[length s - 1 := c] = tl s @ [c]"
proof -
  have "shift_down 0 s = tl s @ [last s]"
    using shift_down_from [of 0 s] assms by (simp add: drop_Suc)
  moreover have "length (tl s) = length s - 1"
    by simp
  ultimately show ?thesis
    by (simp add: list_update_append)
qed

lemma receive_char_buffer:
  "commandFromComputerString (receive_char c st) =
     (if length (commandFromComputerString st) < 256
      then commandFromComputerString st @ [c]
      else tl (commandFromComputerString st) @ [c])"
proof (cases "length (commandFromComputerString st) < 256")
  case True
  then show ?thesis
    by (simp add: receive_char_def commandFromComputerMaxLength_def Let_def)
next
  case False
  then have "commandFromComputerString st \<noteq> []"
    by auto
  then show ?thesis
    using False shift_down_append [of "commandFromComputerString st" c]
    by (simp add: receive_char_def commandFromComputerMaxLength_def Let_def)
qed

lemma receive_char_window:
  assumes "length (commandFromComputerString st) \<le> 256"
  shows "commandFromComputerString (receive_char c st) =
           drop (length (commandFromComputerString st @ [c]) - 256)
             (commandFromComputerString st @ [c])"
proof (cases "length (commandFromComputerString st) < 256")
  case True
  then show ?thesis
    by (simp add: receive_char_buffer)
next
  case False
  with assms have l: "length (commandFromComputerString st) = 256"
    by simp
  then have "commandFromComputerString st \<noteq> []"
    by auto
  then show ?thesis
    using l by (simp add: receive_char_buffer drop_Suc)
qed

lemma receive_char_length:
  "length (commandFromComputerString st) \<le> 256 \<Longrightarrow>
   length (commandFromComputerString (receive_char c st)) \<le> 256"
  by (simp add: receive_char_buffer)

lemma serialEvent_window:
  "length (commandFromComputerString st) \<le> 256 \<Longrightarrow>
   commandFromComputerString (serialEvent cs st) =
     drop (length (commandFromComputerString st @ cs) - 256) (commandFromComputerString st @ cs)"
proof (induction cs arbitrary: st)
  case Nil
  then show ?case by simp
next
  case (Cons c cs)
  let ?b = "commandFromComputerString st"
  have len: "length (commandFromComputerString (receive_char c st)) \<le> 256"
    using Cons.prems by (rule receive_char_length)
  have "commandFromComputerString (serialEvent (c # cs) st) =
          drop (length (commandFromComputerString (receive_char c st) @ cs) - 256)
            (commandFromComputerString (receive_char c st) @ cs)"
    using Cons.IH [OF len] by simp
  also have "commandFromComputerString (receive_char c st) =
               drop (length (?b @ [c]) - 256) (?b @ [c])"
    using Cons.prems by (rule receive_char_window)
  also have "drop (length (drop (length (?b @ [c]) - 256) (?b @ [c]) @ cs) - 256)
               (drop (length (?b @ [c]) - 256) (?b @ [c]) @ cs) =
             drop (length (?b @ c # cs) - 256) (?b @ c # cs)"
    using Cons.prems by (cases "length ?b < 256") auto
  finally show ?case .
qed

lemma serialEvent_length:
  "length (commandFromComputerString st) \<le> 256 \<Longrightarrow>
   length (commandFromComputerString (serialEvent cs st)) \<le> 256"
  by (simp add: serialEvent_window)

lemma serialEvent_complete:
  "commandFromComputerComplete (serialEvent cs st) =
     (commandFromComputerComplete st \<or> newline \<in> set cs)"
  by (induction cs arbitrary: st) (auto simp: receive_char_def Let_def)

lemma serialEvent_frame:
  "dyeInjected (serialEvent cs st) = dyeInjected st \<and>
   injectionStageSpeeds (serialEvent cs st) = injectionStageSpeeds st \<and>
   injectionStageSteps (serialEvent cs st) = injectionStageSteps st \<and>
   serial_printed (serialEvent cs st) = serial_printed st \<and>
   stepper_calls (serialEvent cs st) = stepper_calls st"
  by (induction cs arbitrary: st) (simp_all add: receive_char_def Let_def)

lemma startsWith_hd: "startsWith p s \<Longrightarrow> p \<noteq> [] \<Longrightarrow> hd p \<noteq> NUL \<Longrightarrow> s \<noteq> [] \<and> hd s = hd p"
  by (cases p; cases s) (auto simp: startsWith_def c_str_def split: if_splits)

lemma dispatch_other_first_char:
  assumes "cmd \<noteq> []" and "hd cmd \<notin> {CHR ''S'', CHR ''P'', CHR ''V'', CHR ''D'', CHR ''R'', CHR ''I''}"
  shows "dispatch F cmd st = Serial_print (''Invalid'' @ [newline]) st"
proof (rule dispatch_invalid)
  show "\<not> startsWith ''Inject: '' cmd"
    using assms startsWith_hd [of "''Inject: ''" cmd] by auto
qed (use assms in \<open>cases cmd; auto simp: c_str_def split: if_splits\<close>)+

subsection \<open>A line longer than the buffer\<close>

text \<open>
  C5, as amended. The buffer never holds more than 256 characters. For every byte that
  arrives, a full buffer loses its first character before the byte is put at the end, so
  the buffer always holds the last 256 characters received. After a line received into
  the empty buffer the terminator is the last of them, and the command text that is
  parsed is the last 255 characters of the line (all of it when it is shorter), cut at
  the first NUL byte if there is one among them.
\<close>

theorem buffer_keeps_last_received:
  assumes "length (commandFromComputerString st) \<le> 256"
  shows "length (commandFromComputerString (serialEvent cs st)) \<le> 256 \<and>
         commandFromComputerString (receive_char c st) =
           (if length (commandFromComputerString st) < 256
            then commandFromComputerString st @ [c]
            else tl (commandFromComputerString st) @ [c]) \<and>
         commandFromComputerString (serialEvent cs st) =
           drop (length (commandFromComputerString st @ cs) - 256)
             (commandFromComputerString st @ cs) \<and>
         (commandFromComputerString st = [] \<and> newline \<notin> set line \<longrightarrow>
            commandFromComputerString (serialEvent (line @ [newline]) st) =
              drop (length line - 255) line @ [newline] \<and>
            commandFromComputerComplete (serialEvent (line @ [newline]) st) \<and>
            trim_command (commandFromComputerString (serialEvent (line @ [newline]) st)) =
              c_str (drop (length line - 255) line) \<and>
            (NUL \<notin> set line \<longrightarrow>
               trim_command (commandFromComputerString (serialEvent (line @ [newline]) st)) =
                 drop (length line - 255) line))"
proof -
  have w: "commandFromComputerString (serialEvent (line @ [newline]) st) =
             drop (length line - 255) line @ [newline]"
    if "commandFromComputerString st = []"
    using that by (simp add: serialEvent_window)
  have t: "trim_command (drop (length line - 255) line @ [newline]) =
             c_str (drop (length line - 255) line)"
    if "newline \<notin> set line"
  proof -
    have "newline \<notin> set (drop (length line - 255) line)"
      using that by (auto dest: in_set_dropD)
    then show ?thesis
      by (rule trim_command_line) simp
  qed
  have n: "c_str (drop (length line - 255) line) = drop (length line - 255) line"
    if "NUL \<notin> set line"
    using that by (intro c_str_text) (auto dest: in_set_dropD)
  show ?thesis
    using assms w t n
    by (simp add: serialEvent_length receive_char_buffer serialEvent_window serialEvent_complete)
qed

theorem buffer_keeps_last_received_witness:
  "commandFromComputerString
     (serialEvent (CHR ''b'' # replicate 256 CHR ''a'' @ [newline]) (power_on bench_ops)) =
     replicate 255 CHR ''a'' @ [newline] \<and>
   trim_command (commandFromComputerString
     (serialEvent (CHR ''b'' # replicate 256 CHR ''a'' @ [newline]) (power_on bench_ops))) =
     replicate 255 CHR ''a''"
  using buffer_keeps_last_received
          [of "power_on bench_ops" "CHR ''b'' # replicate 256 CHR ''a'' @ [newline]" "CHR ''a''"
              "CHR ''b'' # replicate 256 CHR ''a''"]
  by (simp add: power_on_def trim_command_line_text del: serialEvent.simps)

text \<open>
  The claim as it was stated has the last 256 characters as the command text. After a
  line of 257 characters the parsed text is 255 characters long: the terminator takes
  one of the 256 slots.
\<close>

theorem parsed_text_is_one_short_of_capacity:
  "length (CHR ''b'' # replicate 256 CHR ''a'') = 257 \<and>
   drop (257 - 256) (CHR ''b'' # replicate 256 CHR ''a'') = replicate 256 CHR ''a'' \<and>
   trim_command (commandFromComputerString
     (serialEvent (CHR ''b'' # replicate 256 CHR ''a'' @ [newline]) (power_on bench_ops))) =
     replicate 255 CHR ''a'' \<and>
   trim_command (commandFromComputerString
     (serialEvent (CHR ''b'' # replicate 256 CHR ''a'' @ [newline]) (power_on bench_ops))) \<noteq>
     replicate 256 CHR ''a''"
proof -
  have b: "commandFromComputerString
             (serialEvent (CHR ''b'' # replicate 256 CHR ''a'' @ [newline]) (power_on bench_ops)) =
           replicate 255 CHR ''a'' @ [newline]"
    by (simp add: serialEvent_window power_on_def del: serialEvent.simps)
  have t: "trim_command (replicate 255 CHR ''a'' @ [newline]) = replicate 255 CHR ''a''"
    by (rule trim_command_line_text) simp_all
  have "length (replicate 255 CHR ''a'') \<noteq> length (replicate 256 CHR ''a'')"
    by simp
  then have "replicate 255 CHR ''a'' \<noteq> replicate 256 CHR ''a''"
    by (metis (full_types))
  then show ?thesis
    using b t by (simp del: serialEvent.simps)
qed

subsection \<open>Unrecognised lines\<close>

text \<open>
  C7, as amended. Take a completed line in a buffer within its capacity. When the text
  of the line before its first NUL byte (the whole line when it holds none) is none of
  the seven command words and does not start with \<open>Inject: \<close>, the line is answered
  with \<open>Invalid\<close>. The state afterwards is the state before with that answer printed,
  the buffer empty and the completion flag cleared, so nothing else has changed and the
  next line is read from an empty buffer.
\<close>

theorem unrecognised_line_is_invalid:
  assumes "commandFromComputerComplete st"
    and "commandFromComputerString st = line @ newline # rest"
    and "newline \<notin> set line"
    and "length (commandFromComputerString st) \<le> 256"
    and "c_str line \<notin> {''Status?'', ''Program?'', ''Version?'', ''DyeInjected?'',
                    ''ResetDyeInjected'', ''StepsPerRevolution?'', ''VolumePerRevolution?''}"
    and "\<not> startsWith ''Inject: '' (c_str line)"
  shows "loop F st =
           st\<lparr>commandFromComputerString := [],
              commandFromComputerComplete := False,
              serial_printed := serial_printed st @ [''Invalid'' @ [newline]]\<rparr>"
proof -
  have l: "length (commandFromComputerString st) \<le> 65535"
    using assms(4) by simp
  have "dispatch F (c_str line) (st\<lparr>commandFromComputerString := c_str line\<rparr>) =
          Serial_print (''Invalid'' @ [newline]) (st\<lparr>commandFromComputerString := c_str line\<rparr>)"
    using assms(5,6) by (intro dispatch_invalid) (auto simp: c_str_idem)
  then show ?thesis
    by (simp add: loop_line [OF assms(1,2,3) l] Serial_print_def)
qed

theorem unrecognised_line_is_invalid_witness:
  "loop bench_ops (serialEvent (''Status? '' @ [newline]) (power_on bench_ops)) =
     (power_on bench_ops)\<lparr>serial_printed := [''Invalid'' @ [newline]]\<rparr>"
proof -
  have s: "serialEvent (''Status? '' @ [newline]) (power_on bench_ops) =
             (power_on bench_ops)
               \<lparr>commandFromComputerString := ''Status? '' @ newline # [],
                commandFromComputerComplete := True\<rparr>"
    by (simp add: receive_char_def power_on_def commandFromComputerMaxLength_def)
  show ?thesis
    unfolding s
    by (subst unrecognised_line_is_invalid [where line = "''Status? ''" and rest = "[]"])
       (simp_all add: startsWith_def power_on_def c_str_def)
qed

text \<open>
  The claim as it was stated is about the whole line. The line \<open>Status?\<close>, a NUL byte
  and \<open>abc\<close> is none of the command words, and it is answered with \<open>OK\<close>: line 168
  copies the buffer as a C string, which ends at the NUL byte.
\<close>

theorem nul_byte_ends_the_command:
  "''Status?'' @ NUL # ''abc'' \<noteq> ''Status?'' \<and>
   loop bench_ops (serialEvent (''Status?'' @ NUL # ''abc'' @ [newline]) (power_on bench_ops)) =
     (power_on bench_ops)\<lparr>serial_printed := [''OK'' @ [newline]]\<rparr>"
proof -
  have s: "serialEvent (''Status?'' @ NUL # ''abc'' @ [newline]) (power_on bench_ops) =
             (power_on bench_ops)
               \<lparr>commandFromComputerString := (''Status?'' @ NUL # ''abc'') @ newline # [],
                commandFromComputerComplete := True\<rparr>"
    by (simp add: receive_char_def power_on_def commandFromComputerMaxLength_def)
  have c: "c_str (''Status?'' @ NUL # ''abc'') = ''Status?''"
    by (simp add: c_str_def)
  have d: "dispatch bench_ops ''Status?'' t = Serial_print (''OK'' @ [newline]) t"
    for t :: "real sketch"
    by (simp add: dispatch_def equals_def)
  let ?st = "(power_on bench_ops)
               \<lparr>commandFromComputerString := (''Status?'' @ NUL # ''abc'') @ newline # [],
                commandFromComputerComplete := True\<rparr>"
  have "loop bench_ops ?st =
          (dispatch bench_ops (c_str (''Status?'' @ NUL # ''abc''))
             (?st\<lparr>commandFromComputerString := c_str (''Status?'' @ NUL # ''abc'')\<rparr>))
            \<lparr>commandFromComputerString := [], commandFromComputerComplete := False\<rparr>"
    by (rule loop_line [where rest = "[]"]) simp_all
  then have "loop bench_ops ?st = (power_on bench_ops)\<lparr>serial_printed := [''OK'' @ [newline]]\<rparr>"
    unfolding c d by (simp add: Serial_print_def power_on_def)
  then show ?thesis
    unfolding s by simp
qed

subsection \<open>Queries\<close>

text \<open>
  C9. Each of the six queries changes nothing but the serial output, to which it adds
  its answer. Dispatching \<open>Status?\<close> any number of times adds one \<open>OK\<close> per dispatch
  and leaves \<open>dyeInjected\<close> and everything else as they were.
\<close>

theorem queries_change_nothing:
  "dispatch F ''Status?'' st =
     st\<lparr>serial_printed := serial_printed st @ [''OK'' @ [newline]]\<rparr> \<and>
   dispatch F ''Program?'' st =
     st\<lparr>serial_printed := serial_printed st @ [''Dye Injector'' @ [newline]]\<rparr> \<and>
   dispatch F ''Version?'' st =
     st\<lparr>serial_printed := serial_printed st @ [''0.1'' @ [newline]]\<rparr> \<and>
   dispatch F ''StepsPerRevolution?'' st =
     st\<lparr>serial_printed := serial_printed st @ [''200'' @ [newline]]\<rparr> \<and>
   dispatch F ''VolumePerRevolution?'' st =
     st\<lparr>serial_printed :=
          serial_printed st @ [dtostre F (volumePerRevolution F) @ [newline]]\<rparr> \<and>
   dispatch F ''DyeInjected?'' st =
     st\<lparr>serial_printed := serial_printed st @ [dtostre F (dyeInjected st) @ [newline]]\<rparr> \<and>
   (dispatch F ''Status?'' ^^ n) st =
     st\<lparr>serial_printed := serial_printed st @ replicate n (''OK'' @ [newline])\<rparr>"
proof -
  have status: "dispatch F ''Status?'' s =
                  s\<lparr>serial_printed := serial_printed s @ [''OK'' @ [newline]]\<rparr>" for s
    by (simp add: dispatch_def Serial_print_def equals_def)
  have d: "dec (unat stepsPerRevolution) = ''200''"
    by (simp add: stepsPerRevolution_def dec.simps digit_chars)
  have rep: "(dispatch F ''Status?'' ^^ n) st =
               st\<lparr>serial_printed := serial_printed st @ replicate n (''OK'' @ [newline])\<rparr>"
  proof (induction n)
    case 0
    show ?case by simp
  next
    case (Suc n)
    have "(dispatch F ''Status?'' ^^ Suc n) st =
            dispatch F ''Status?'' ((dispatch F ''Status?'' ^^ n) st)"
      by simp
    also have "\<dots> = dispatch F ''Status?''
                        (st\<lparr>serial_printed :=
                             serial_printed st @ replicate n (''OK'' @ [newline])\<rparr>)"
      by (simp only: Suc.IH)
    also have "\<dots> = st\<lparr>serial_printed :=
                            serial_printed st @ replicate (Suc n) (''OK'' @ [newline])\<rparr>"
      unfolding status by (simp add: replicate_append_same)
    finally show ?case .
  qed
  have others:
    "dispatch F ''Program?'' st =
       st\<lparr>serial_printed := serial_printed st @ [''Dye Injector'' @ [newline]]\<rparr>"
    "dispatch F ''Version?'' st =
       st\<lparr>serial_printed := serial_printed st @ [''0.1'' @ [newline]]\<rparr>"
    "dispatch F ''StepsPerRevolution?'' st =
       st\<lparr>serial_printed := serial_printed st @ [''200'' @ [newline]]\<rparr>"
    "dispatch F ''VolumePerRevolution?'' st =
       st\<lparr>serial_printed :=
            serial_printed st @ [dtostre F (volumePerRevolution F) @ [newline]]\<rparr>"
    "dispatch F ''DyeInjected?'' st =
       st\<lparr>serial_printed := serial_printed st @ [dtostre F (dyeInjected st) @ [newline]]\<rparr>"
    by (simp_all add: dispatch_def Serial_print_def d floatToString_def
          freqdriveMotorControlVersion_def equals_def c_str_def)
  show ?thesis
    by (simp only: status rep others simp_thms)
qed

subsection \<open>Bytes after the first newline\<close>

text \<open>
  C10. The claim is that bytes received after the first newline and before the command
  is processed are never dispatched. When they are 256 or more, the newline has left the
  buffer by the time \<open>loop\<close> runs: \<open>indexOf\<close> returns \<open>-1\<close>, \<open>substring(0, -1)\<close>
  keeps the whole buffer, and the later bytes are dispatched as the command. Here
  \<open>Status?\<close> is followed in one batch by 256 further bytes; the answer is \<open>Invalid\<close>,
  not \<open>OK\<close>.
\<close>

theorem evicted_newline_dispatches_later_bytes:
  "commandFromComputerString
     (serialEvent (''Status?'' @ newline # replicate 256 CHR ''x'') (power_on F)) =
     replicate 256 CHR ''x'' \<and>
   commandFromComputerComplete
     (serialEvent (''Status?'' @ newline # replicate 256 CHR ''x'') (power_on F)) \<and>
   trim_command (replicate 256 CHR ''x'') = replicate 256 CHR ''x'' \<and>
   loop F (serialEvent (''Status?'' @ newline # replicate 256 CHR ''x'') (power_on F)) =
     (power_on F)\<lparr>serial_printed := [''Invalid'' @ [newline]]\<rparr>"
proof -
  let ?st = "serialEvent (''Status?'' @ newline # replicate 256 CHR ''x'') (power_on F)"
  have b: "commandFromComputerString ?st = replicate 256 CHR ''x''"
    by (simp add: serialEvent_window power_on_def del: serialEvent.simps)
  have c: "commandFromComputerComplete ?st"
    by (simp add: serialEvent_complete del: serialEvent.simps)
  have t: "trim_command (replicate 256 CHR ''x'') = replicate 256 CHR ''x''"
    by (simp add: trim_command_no_newline c_str_text)
  have f: "dyeInjected ?st = dyeInjected (power_on F)"
    "injectionStageSpeeds ?st = injectionStageSpeeds (power_on F)"
    "injectionStageSteps ?st = injectionStageSteps (power_on F)"
    "serial_printed ?st = serial_printed (power_on F)"
    "stepper_calls ?st = stepper_calls (power_on F)"
    using serialEvent_frame [of "''Status?'' @ newline # replicate 256 CHR ''x''" "power_on F"]
    by blast+
  have d: "dispatch F (replicate 256 CHR ''x'') s = Serial_print (''Invalid'' @ [newline]) s" for s
    by (rule dispatch_other_first_char) simp_all
  have "loop F ?st = (power_on F)\<lparr>serial_printed := [''Invalid'' @ [newline]]\<rparr>"
    using b c f
    by (simp add: loop_def t d Serial_print_def power_on_def del: serialEvent.simps)
  with b c t show ?thesis
    by blast
qed

end
